theory Spec2Isabelle
  imports Complex_Main
begin

section \<open>The combined economics and diplomacy environment\<close>

text \<open>
  A shallow embedding of \<^verbatim>\<open>CombinedEnv\<close> of
  \<^verbatim>\<open>Source/Prototypes/PrototypeVer2_ps/combined_env.py\<close>.

  NumPy arrays of floats are lists of reals (a matrix is the list of its rows); rounding,
  overflow and the non-finite values of IEEE arithmetic are outside this model. Line 194 alone
  is given a second time in rounded binary floating point (\<open>interest_rate_fl\<close>), for the range
  of the interest-rate proxy.
  The values that the global generator \<^verbatim>\<open>np.random\<close> returns are arguments of
  \<open>reset\<close> and \<open>step\<close>. An exception is a value \<open>Inl e\<close>.
\<close>

subsection \<open>Arrays\<close>

type_synonym vec = "real list"
type_synonym mat = "real list list"

datatype error = KeyError | ValueError | IndexError | AssertionError | NotImplementedError

text \<open>\<^verbatim>\<open>np.mean\<close> and \<^verbatim>\<open>np.std\<close> (the population standard deviation) of a vector.\<close>

definition np_mean :: "vec \<Rightarrow> real" where
  "np_mean xs = sum_list xs / real (length xs)"

definition np_std :: "vec \<Rightarrow> real" where
  "np_std xs = sqrt (np_mean (map (\<lambda>x. (x - np_mean xs)\<^sup>2) xs))"

text \<open>\<^verbatim>\<open>x.reshape(-1, 1) - y.reshape(1, -1)\<close>: entry \<open>(i, j)\<close> is \<open>x\<^sub>i - y\<^sub>j\<close>.\<close>

definition outer_sub :: "vec \<Rightarrow> vec \<Rightarrow> mat" where
  "outer_sub xs ys = map (\<lambda>x. map (\<lambda>y. x - y) ys) xs"

text \<open>Elementwise operations on matrices of one shape, and a scalar times a matrix.\<close>

definition mat_map2 :: "(real \<Rightarrow> real \<Rightarrow> real) \<Rightarrow> mat \<Rightarrow> mat \<Rightarrow> mat" where
  "mat_map2 f A B = map2 (map2 f) A B"

definition mat_scale :: "real \<Rightarrow> mat \<Rightarrow> mat" where
  "mat_scale c A = map (map (\<lambda>x. c * x)) A"

text \<open>\<^verbatim>\<open>np.fill_diagonal(M, v)\<close> on a square matrix, returning the changed copy.\<close>

definition fill_diagonal :: "mat \<Rightarrow> real \<Rightarrow> mat" where
  "fill_diagonal M v = map (\<lambda>i. (M ! i)[i := v]) [0..<length M]"

text \<open>\<^verbatim>\<open>M @ v\<close>, a matrix times a vector.\<close>

definition matvec :: "mat \<Rightarrow> vec \<Rightarrow> vec" where
  "matvec M v = map (\<lambda>row. sum_list (map2 (*) row v)) M"

text \<open>\<^verbatim>\<open>np.eye(n)\<close>.\<close>

definition eye :: "nat \<Rightarrow> mat" where
  "eye n = map (\<lambda>i. map (\<lambda>j. if i = j then 1 else 0) [0..<n]) [0..<n]"

text \<open>
  \<^verbatim>\<open>np.roll(M, shift, axis=0)\<close>: row \<open>k\<close> of the result is row \<open>(k - shift) mod n\<close>
  of \<open>M\<close>; the last \<open>shift mod n\<close> rows come first.
\<close>

definition np_roll :: "'a list \<Rightarrow> nat \<Rightarrow> 'a list" where
  "np_roll xs shift =
     (if xs = [] then []
      else let k = shift mod length xs
           in drop (length xs - k) xs @ take (length xs - k) xs)"

text \<open>\<^verbatim>\<open>np.hstack((A, B))\<close> of two matrices with the same number of rows.\<close>

definition hstack :: "mat \<Rightarrow> mat \<Rightarrow> mat" where
  "hstack A B = map2 (@) A B"

subsection \<open>Constants of the module and of the constructor\<close>

definition N :: nat where
  "N = 7"

definition digit_char :: "nat \<Rightarrow> char" where
  "digit_char d = ''0123456789'' ! d"

fun str_nat :: "nat \<Rightarrow> string" where
  "str_nat n = (if n < 10 then [digit_char n] else str_nat (n div 10) @ [digit_char (n mod 10)])"

declare str_nat.simps [simp del]

definition agent_name :: "nat \<Rightarrow> string" where
  "agent_name i = ''agent_'' @ str_nat i"

definition possible_agents :: "string list" where
  "possible_agents = map agent_name [0..<N]"

definition std_pgdp :: real where "std_pgdp = 0.1"
definition std_gdp :: real where "std_gdp = 0.1"
definition std_ppl :: real where "std_ppl = 0.1"
definition std_pl :: real where "std_pl = 0.1"
definition std_pne :: real where "std_pne = 0.1"
definition std_ne :: real where "std_ne = 0.1"
definition ex_int_degree :: real where "ex_int_degree = 1"
definition delta :: real where "delta = 0.01"
definition tau_values :: vec where
  "tau_values = [0.95, 0.90, 0.85, 0.80, 0.75, 0.70, 0.65]"
definition kappa :: real where "kappa = 100"
definition inf_target :: real where "inf_target = 0.02"
text \<open>\<^verbatim>\<open>self.constant\<close> (the name is a keyword of Isabelle).\<close>

definition constant' :: real where "constant' = 0.01"

subsection \<open>The environment's state\<close>

text \<open>
  The attributes of the instance. Those from \<open>one_plus_int_rate\<close> on are set by \<open>step\<close>
  only, and \<open>step\<close> writes each of them before it reads it. The attribute \<^verbatim>\<open>EX\<close> is the
  field \<open>EX'\<close> (the plain name is notation of HOL).
\<close>

record env =
  render_mode :: "string option"
  agents :: "string list"
  t :: nat
  prev_gdp :: vec
  gdp :: vec
  GDP :: vec
  one_plus_gdp_growth_rate :: vec
  prev_price_lvl :: vec
  price_lvl :: vec
  one_plus_inf_rate :: vec
  PREV_NET_EX :: vec
  NET_EX :: vec
  eco_observation :: mat
  affinity :: mat
  delta_affinity :: mat
  one_plus_int_rate :: vec
  total_demand :: vec
  nom_exchange_rate :: mat
  real_exchange_rate :: mat
  FOR_EXP :: vec
  TRADE_COEFF :: mat
  EX' :: vec
  TRADE_COEFF_STAR :: mat
  EX_STAR :: vec
  IM :: vec
  eco_reward :: vec

text \<open>\<^verbatim>\<open>ParallelEnv.num_agents\<close> is the number of active agents.\<close>

definition num_agents :: "env \<Rightarrow> nat" where
  "num_agents s = length (agents s)"

subsection \<open>The economic transition (lines 194 to 228 of the source)\<close>

text \<open>Line 194, for one agent: the interest-rate proxy of an economic action.\<close>

definition interest_rate :: "real \<Rightarrow> real" where
  "interest_rate a = 0.20 / (1 + exp (- a))"

text \<open>Lines 202 to 204: \<open>NUM\<close>, \<open>DEN\<close> (the column sums, kept as one row) and their quotient.\<close>

definition trade_coeff :: "mat \<Rightarrow> mat" where
  "trade_coeff rer =
     (let NUM = transpose (map (map exp) rer);
          DEN = map sum_list (transpose NUM)
      in map (\<lambda>row. map2 (/) row DEN) NUM)"

text \<open>Lines 205 to 207: the exports from the column-normalised orientation.\<close>

definition exports :: "mat \<Rightarrow> vec \<Rightarrow> vec" where
  "exports TC FE = (let TEMP = fill_diagonal TC 0 in matvec (transpose TEMP) FE)"

text \<open>Lines 208 to 210: \<open>NUM_STAR\<close>, \<open>DEN_STAR\<close> (the row sums, kept as one column).\<close>

definition trade_coeff_star :: "mat \<Rightarrow> mat" where
  "trade_coeff_star rer =
     (let NUM_STAR = map (map exp) rer;
          DEN_STAR = map sum_list NUM_STAR
      in map2 (\<lambda>row d. map (\<lambda>x. x / d) row) NUM_STAR DEN_STAR)"

text \<open>Lines 211 to 213: the exports from the row-normalised orientation.\<close>

definition exports_star :: "mat \<Rightarrow> vec \<Rightarrow> vec" where
  "exports_star TCS FE = (let TEMP_STAR = fill_diagonal TCS 0 in matvec TEMP_STAR FE)"

text \<open>Lines 194 to 213: everything up to the assertion on the two export totals.\<close>

definition eco_trade :: "env \<Rightarrow> vec \<Rightarrow> env" where
  "eco_trade s eco_actions =
     (let rate = map interest_rate eco_actions;
          demand = map2 (-) (gdp s) rate;
          price_diff = outer_sub (price_lvl s) (price_lvl s);
          int_rate_diff = outer_sub rate rate;
          nom = mat_map2 (-) price_diff (mat_scale ex_int_degree int_rate_diff);
          rer = mat_scale (- ex_int_degree) int_rate_diff;
          fe = map2 (*) (map (\<lambda>tau. 1 - tau) tau_values) (map exp demand);
          tc = trade_coeff rer;
          tcs = trade_coeff_star rer
      in s\<lparr>one_plus_int_rate := rate, total_demand := demand,
            nom_exchange_rate := nom, real_exchange_rate := rer, FOR_EXP := fe,
            TRADE_COEFF := tc, EX' := exports tc fe,
            TRADE_COEFF_STAR := tcs, EX_STAR := exports_star tcs fe\<rparr>)"

text \<open>Line 228, for one agent: the economic reward from the growth rate and the inflation.\<close>

definition eco_reward_of :: "real \<Rightarrow> real \<Rightarrow> real" where
  "eco_reward_of growth inflation =
     (exp growth - 1) - kappa * (exp inflation - 1 - inf_target)\<^sup>2"

text \<open>Lines 215 to 228: imports, net exports, prices, GDP and the economic reward.\<close>

definition eco_macro :: "env \<Rightarrow> env" where
  "eco_macro s =
     (let TEMP = fill_diagonal (TRADE_COEFF s) 0;
          im = map2 (*) (map sum_list TEMP) (FOR_EXP s);
          net = map2 (-) (EX' s) im;
          p1 = map2 (-)
                 (map2 (+) (map (\<lambda>p. ln (exp p)) (price_lvl s))
                    (map2 (\<lambda>x d. ln (max (1 / 10 ^ 10) (1 + x / exp d))) net (total_demand s)))
                 (one_plus_int_rate s);
          p2 = map (\<lambda>p. (p - np_mean p1) / np_std p1) p1;
          inflation = map2 (-) p2 (price_lvl s);
          G = map2 (+) (map exp (total_demand s)) net;
          g1 = map ln G;
          g2 = map (\<lambda>g. (g - np_mean g1 + constant' * real (t s)) / np_std g1) g1;
          growth = map2 (-) g2 (gdp s)
      in s\<lparr>IM := im, PREV_NET_EX := NET_EX s, NET_EX := net,
            prev_price_lvl := price_lvl s, price_lvl := p2, one_plus_inf_rate := inflation,
            prev_gdp := gdp s, GDP := G, gdp := g2, one_plus_gdp_growth_rate := growth,
            eco_observation := transpose [g2, growth, p2, inflation],
            eco_reward := map2 eco_reward_of growth inflation\<rparr>)"

subsection \<open>Line 194 in binary floating point\<close>

text \<open>
  The arrays of line 194 hold floats of the dtype of the actions. A format has \<open>prec\<close> bits of
  significand and the exponents from \<open>emin\<close> to \<open>emax\<close>.
\<close>

datatype dtype = Float32 | Float64

fun prec :: "dtype \<Rightarrow> int" where
  "prec Float32 = 24"
| "prec Float64 = 53"

fun emin :: "dtype \<Rightarrow> int" where
  "emin Float32 = - 126"
| "emin Float64 = - 1022"

fun emax :: "dtype \<Rightarrow> int" where
  "emax Float32 = 127"
| "emax Float64 = 1023"

definition pow2 :: "int \<Rightarrow> real" where
  "pow2 k = 2 powr real_of_int k"

text \<open>Rounding a real to the nearest integer, a tie to the even one.\<close>

definition round_even :: "real \<Rightarrow> int" where
  "round_even x =
     (let f = \<lfloor>x\<rfloor>; r = x - of_int f
      in if r < 1 / 2 then f else if 1 / 2 < r then f + 1 else if even f then f else f + 1)"

text \<open>
  The exponent of the binade of \<open>x\<close>, not below \<open>emin\<close> (below it the floats are subnormal and
  equally spaced), and the distance of neighbouring floats there.
\<close>

definition binade :: "dtype \<Rightarrow> real \<Rightarrow> int" where
  "binade d x = max (emin d) \<lfloor>log 2 \<bar>x\<bar>\<rfloor>"

definition ulp :: "dtype \<Rightarrow> real \<Rightarrow> real" where
  "ulp d x = pow2 (binade d x - prec d + 1)"

text \<open>
  The float nearest to \<open>x\<close> (round to nearest, ties to even), with the exponent unbounded above;
  a result beyond \<open>max_float\<close> stands for an overflow to infinity.
\<close>

definition fl :: "dtype \<Rightarrow> real \<Rightarrow> real" where
  "fl d x = (if x = 0 then 0 else of_int (round_even (x / ulp d x)) * ulp d x)"

definition max_float :: "dtype \<Rightarrow> real" where
  "max_float d = (2 - pow2 (1 - prec d)) * pow2 (emax d)"

text \<open>
  Line 194 for one action \<open>a\<close> in the format \<open>d\<close>: every operation rounds its exact result
  (\<^verbatim>\<open>np.exp\<close> taken as correctly rounded), and the literal \<^verbatim>\<open>0.20\<close>, a Python float and so a
  float64, is cast to the format.
  When \<open>exp (- a)\<close> overflows, NumPy in its default error state warns and yields infinity,
  \<open>1 + inf\<close> is infinity and \<open>0.20 / inf\<close> is 0.
\<close>

definition interest_rate_fl :: "dtype \<Rightarrow> real \<Rightarrow> real" where
  "interest_rate_fl d a =
     (let e = fl d (exp (- a))
      in if max_float d < e then 0
         else fl d (fl d (fl Float64 0.20) / fl d (1 + e)))"

subsection \<open>Inputs and outputs\<close>

text \<open>
  An action of the action space: \<open>eco\<close> is the one entry of a \<^verbatim>\<open>Box\<close> of shape \<open>(1,)\<close>,
  \<open>pol\<close> a vector (of \<open>2 * N\<close> entries when well formed). \<open>step\<close> takes a dictionary from
  agent names to actions.
\<close>

record action =
  eco :: real
  pol :: vec

text \<open>
  What the generator returns in one iteration of the loop over the agents:
  \<^verbatim>\<open>np.random.choice(n, p=invite_prob)\<close> and the entries of
  \<^verbatim>\<open>np.random.uniform(size=n)\<close>.
\<close>

record pol_draw =
  choice :: nat
  uniform :: "nat \<Rightarrow> real"

text \<open>The entries of the six calls of \<^verbatim>\<open>np.random.randn\<close> in \<open>reset\<close>, in the order of the calls.\<close>

record reset_draws =
  z_prev_gdp :: "nat \<Rightarrow> real"
  z_gdp :: "nat \<Rightarrow> real"
  z_prev_price_lvl :: "nat \<Rightarrow> real"
  z_price_lvl :: "nat \<Rightarrow> real"
  z_prev_net_ex :: "nat \<Rightarrow> real"
  z_net_ex :: "nat \<Rightarrow> real"

definition randn :: "(nat \<Rightarrow> real) \<Rightarrow> nat \<Rightarrow> vec" where
  "randn z n = map z [0..<n]"

record step_out =
  observations :: "string \<rightharpoonup> vec"
  rewards :: "string \<rightharpoonup> real"
  terminations :: "string \<rightharpoonup> bool"
  truncations :: "string \<rightharpoonup> bool"
  infos :: "string \<rightharpoonup> unit"

text \<open>\<^verbatim>\<open>{agent: v for agent in agents}\<close> and \<^verbatim>\<open>all(d.values())\<close> for a dictionary on the agents.\<close>

definition const_dict :: "string list \<Rightarrow> 'a \<Rightarrow> (string \<rightharpoonup> 'a)" where
  "const_dict as v = map_of (map (\<lambda>a. (a, v)) as)"

definition all_values :: "string list \<Rightarrow> (string \<rightharpoonup> bool) \<Rightarrow> bool" where
  "all_values as d = list_all (\<lambda>a. d a = Some True) as"

subsection \<open>Observations (lines 178 to 182 and 254 to 258)\<close>

text \<open>The matrix of agent number \<open>i\<close> before it is flattened.\<close>

definition obs_matrix :: "env \<Rightarrow> nat \<Rightarrow> mat" where
  "obs_matrix s i = np_roll (hstack (eco_observation s) (affinity s)) i"

definition build_observations :: "env \<Rightarrow> (string \<rightharpoonup> vec)" where
  "build_observations s =
     map_of (map (\<lambda>(i, agent). (agent, concat (obs_matrix s i))) (enumerate 0 (agents s)))"

subsection \<open>reset (lines 160 to 184)\<close>

text \<open>The arguments \<^verbatim>\<open>seed\<close> and \<^verbatim>\<open>options\<close> are not used by the source.\<close>

definition reset :: "env \<Rightarrow> int option \<Rightarrow> reset_draws \<Rightarrow> env \<times> (string \<rightharpoonup> vec) \<times> (string \<rightharpoonup> unit)" where
  "reset s seed z =
     (let s = s\<lparr>agents := possible_agents, t := 0\<rparr>;
          n = num_agents s;
          pg = map (\<lambda>x. std_pgdp * x) (randn (z_prev_gdp z) n);
          g = map (\<lambda>x. std_gdp * x) (randn (z_gdp z) n);
          growth = map2 (-) g pg;
          pp = map (\<lambda>x. std_ppl * x) (randn (z_prev_price_lvl z) n);
          p = map (\<lambda>x. std_pl * x) (randn (z_price_lvl z) n);
          inflation = map2 (-) p pp;
          s = s\<lparr>prev_gdp := pg, gdp := g, GDP := map exp g, one_plus_gdp_growth_rate := growth,
                prev_price_lvl := pp, price_lvl := p, one_plus_inf_rate := inflation,
                PREV_NET_EX := map (\<lambda>x. exp (std_pne * x)) (randn (z_prev_net_ex z) n),
                NET_EX := map (\<lambda>x. exp (std_ne * x)) (randn (z_net_ex z) n),
                eco_observation := transpose [g, growth, p, inflation],
                affinity := eye n, delta_affinity := eye n\<rparr>
      in (s, build_observations s, const_dict (agents s) ()))"

subsection \<open>The diplomatic phase (lines 231 to 252)\<close>

definition softmax :: "vec \<Rightarrow> vec" where
  "softmax x = map (\<lambda>v. exp v / sum_list (map exp x)) x"

text \<open>The function that the source names \<^verbatim>\<open>sigmoid\<close>, at one entry of its argument.\<close>

definition sigmoid :: "real \<Rightarrow> real" where
  "sigmoid x = 1 / (1 + exp x)"

text \<open>
  \<^verbatim>\<open>np.random.choice(n, p=p)\<close> refuses a \<open>p\<close> that has not \<open>n\<close> entries; \<open>drawn\<close> is the
  index that the generator returns.
\<close>

definition random_choice :: "nat \<Rightarrow> vec \<Rightarrow> nat \<Rightarrow> error + nat" where
  "random_choice n p drawn = (if n = 0 \<or> length p \<noteq> n then Inl ValueError else Inr drawn)"

text \<open>
  \<^verbatim>\<open>one_hot(x, depth=n)\<close> of \<^verbatim>\<open>ray.rllib.utils.numpy\<close> for an index \<open>x\<close>: it asserts that
  the index is below the depth (a depth of zero stands for \<open>x + 1\<close>).
\<close>

definition one_hot :: "nat \<Rightarrow> nat \<Rightarrow> error + vec" where
  "one_hot x depth =
     (let d = (if depth = 0 then x + 1 else depth)
      in if x < d then Inr ((replicate d 0)[x := 1]) else Inl AssertionError)"

text \<open>\<^verbatim>\<open>u < p\<close> on two vectors, with NumPy's broadcasting of a vector of one entry.\<close>

definition less_bc :: "vec \<Rightarrow> vec \<Rightarrow> error + bool list" where
  "less_bc u p =
     (if length u = length p then Inr (map2 (<) u p)
      else if length p = 1 then Inr (map (\<lambda>x. x < hd p) u)
      else if length u = 1 then Inr (map (\<lambda>y. hd u < y) p)
      else Inl ValueError)"

text \<open>The body of the loop (lines 236 to 245) for agent number \<open>i\<close>: its invite and accept rows.\<close>

definition pol_agent :: "nat \<Rightarrow> nat \<Rightarrow> vec \<Rightarrow> pol_draw \<Rightarrow> error + (vec \<times> bool list)" where
  "pol_agent n i pol_action d =
     (let invite_pref = take n pol_action;
          accept_pref = drop n pol_action;
          invite_prob = softmax invite_pref;
          accept_prob = map sigmoid accept_pref
      in case random_choice n invite_prob (choice d) of
           Inl e \<Rightarrow> Inl e
         | Inr invite_choice \<Rightarrow>
             (case one_hot invite_choice n of
                Inl e \<Rightarrow> Inl e
              | Inr invite \<Rightarrow>
                  (case less_bc (map (uniform d) [0..<n]) accept_prob of
                     Inl e \<Rightarrow> Inl e
                   | Inr accept \<Rightarrow>
                       if i < length invite \<and> i < length accept
                       then Inr (invite[i := 0], accept[i := False])
                       else Inl IndexError)))"

text \<open>The loop over \<^verbatim>\<open>enumerate(pol_actions)\<close>, from index \<open>i\<close> on.\<close>

fun pol_loop :: "nat \<Rightarrow> nat \<Rightarrow> vec list \<Rightarrow> (nat \<Rightarrow> pol_draw) \<Rightarrow> error + (vec list \<times> bool list list)" where
  "pol_loop n i [] draws = Inr ([], [])"
| "pol_loop n i (p # ps) draws =
     (case pol_agent n i p (draws i) of
        Inl e \<Rightarrow> Inl e
      | Inr (invite, accept) \<Rightarrow>
          (case pol_loop n (Suc i) ps draws of
             Inl e \<Rightarrow> Inl e
           | Inr (invites, accepts) \<Rightarrow> Inr (invite # invites, accept # accepts)))"

text \<open>\<^verbatim>\<open>np.vstack\<close> needs at least one row, and rows of one length.\<close>

definition vstack :: "'a list list \<Rightarrow> error + 'a list list" where
  "vstack rows =
     (if rows = [] then Inl ValueError
      else if list_all (\<lambda>r. length r = length (hd rows)) rows then Inr rows
      else Inl ValueError)"

text \<open>Line 250. The accept decisions are booleans; in arithmetic they count as 0 and 1.\<close>

definition delta_affinity_of :: "mat \<Rightarrow> bool list list \<Rightarrow> mat" where
  "delta_affinity_of invites accepts =
     (let A = map (map of_bool) accepts
      in mat_scale (delta * 0.5)
           (mat_map2 (+) (mat_map2 (*) (transpose A) invites)
                         (mat_map2 (*) (transpose invites) A)))"

subsection \<open>render (lines 85 to 91), as far as \<open>step\<close> depends on it\<close>

definition render :: "env \<Rightarrow> string option \<Rightarrow> error + unit" where
  "render s mode =
     (if mode = Some ''human'' then Inr ()
      else if mode = Some ''array'' then Inr ()
      else Inl NotImplementedError)"

subsection \<open>step (lines 186 to 278)\<close>

text \<open>
  Lines 254 to 278, after the two phases. The state of the instance after an exception is
  not part of the result.
\<close>

definition finish_step :: "env \<Rightarrow> error + (env \<times> step_out)" where
  "finish_step s =
     (let obs = build_observations s;
          rew = map_of (zip (agents s) (matvec (affinity s) (eco_reward s)));
          inf = const_dict (agents s) ();
          s = s\<lparr>t := t s + 1\<rparr>
      in case render s (render_mode s) of
           Inl e \<Rightarrow> Inl e
         | Inr _ \<Rightarrow>
             (let trunc = (if 100 \<le> t s then const_dict (agents s) True
                           else const_dict (agents s) False);
                  term = (if 100 \<le> t s then const_dict (agents s) True
                          else const_dict (agents s) False);
                  s' = (if all_values (agents s) term \<or> all_values (agents s) trunc
                        then s\<lparr>agents := []\<rparr> else s)
              in Inr (s', \<lparr>observations = obs, rewards = rew, terminations = term,
                           truncations = trunc, infos = inf\<rparr>)))"

text \<open>
  Lines 194 to 228 with their two failures: NumPy refuses to subtract one rate per active agent
  from the \<open>N\<close> entries of \<open>gdp\<close> unless there are \<open>N\<close> rates, and line 214 asserts that the
  two export totals are equal.
\<close>

definition eco_phase :: "env \<Rightarrow> vec \<Rightarrow> error + env" where
  "eco_phase s eco_actions =
     (if length (gdp s) \<noteq> length eco_actions then Inl ValueError
      else
        (let s1 = eco_trade s eco_actions
         in if EX' s1 \<noteq> EX_STAR s1 then Inl AssertionError else Inr (eco_macro s1)))"

text \<open>Lines 231 to 252: the invite and accept matrices and the update of the affinity.\<close>

definition pol_phase :: "env \<Rightarrow> vec list \<Rightarrow> (nat \<Rightarrow> pol_draw) \<Rightarrow> error + env" where
  "pol_phase s pol_actions draws =
     (case pol_loop (num_agents s) 0 pol_actions draws of
        Inl e \<Rightarrow> Inl e
      | Inr (invites0, accepts0) \<Rightarrow>
          (case vstack invites0 of
             Inl e \<Rightarrow> Inl e
           | Inr invites \<Rightarrow>
               (case vstack accepts0 of
                  Inl e \<Rightarrow> Inl e
                | Inr accepts \<Rightarrow>
                    (let d = delta_affinity_of invites accepts
                     in Inr (s\<lparr>delta_affinity := d,
                               affinity := mat_map2 (+) (affinity s) d\<rparr>)))))"

text \<open>
  Lines 188 and 189 look every active agent up in the dictionary of actions; then the three
  parts run in order.
\<close>

definition step :: "env \<Rightarrow> (string \<rightharpoonup> action) \<Rightarrow> (nat \<Rightarrow> pol_draw) \<Rightarrow> error + (env \<times> step_out)" where
  "step s actions draws =
     (case those (map actions (agents s)) of
        None \<Rightarrow> Inl KeyError
      | Some acts \<Rightarrow>
          (case eco_phase s (map eco acts) of
             Inl e \<Rightarrow> Inl e
           | Inr s1 \<Rightarrow>
               (case pol_phase s1 (map pol acts) draws of
                  Inl e \<Rightarrow> Inl e
                | Inr s2 \<Rightarrow> finish_step s2)))"

text \<open>An episode after \<open>reset\<close>: the state and the outputs after each call of \<open>step\<close>.\<close>

fun run :: "env \<Rightarrow> ((string \<rightharpoonup> action) \<times> (nat \<Rightarrow> pol_draw)) list \<Rightarrow> error + (env \<times> step_out) list" where
  "run s [] = Inr []"
| "run s (x # xs) =
     (case step s (fst x) (snd x) of
        Inl e \<Rightarrow> Inl e
      | Inr r \<Rightarrow> (case run (fst r) xs of Inl e \<Rightarrow> Inl e | Inr rs \<Rightarrow> Inr (r # rs)))"

text \<open>
  The shapes of the arrays that \<open>step\<close> reads, in every state that \<open>reset\<close> and \<open>step\<close> produce:
  the agents are all active or none is, and each array has \<open>N\<close> entries in each dimension.
\<close>

definition square :: "nat \<Rightarrow> 'a list list \<Rightarrow> bool" where
  "square n M \<longleftrightarrow> length M = n \<and> list_all (\<lambda>r. length r = n) M"

definition wf_env :: "env \<Rightarrow> bool" where
  "wf_env s \<longleftrightarrow>
     (agents s = possible_agents \<or> agents s = []) \<and>
     length (gdp s) = N \<and> length (price_lvl s) = N \<and> square N (affinity s)"

subsection \<open>Predicates used in the proofs\<close>

text \<open>
  The invite row and the accept row that iteration \<open>i\<close> of the loop appends: \<open>n\<close> entries each,
  the invite entries are 0 or 1, and entry \<open>i\<close> of both rows has been cleared.
\<close>

definition row_ok :: "nat \<Rightarrow> nat \<Rightarrow> vec \<Rightarrow> bool list \<Rightarrow> bool" where
  "row_ok n i invite accept \<longleftrightarrow>
     length invite = n \<and> length accept = n \<and> i < n \<and> invite ! i = 0 \<and> \<not> accept ! i \<and>
     list_all (\<lambda>x. x = 0 \<or> x = 1) invite"

definition rows_ok :: "nat \<Rightarrow> mat \<Rightarrow> bool list list \<Rightarrow> bool" where
  "rows_ok n I A \<longleftrightarrow> length I = n \<and> length A = n \<and> (\<forall>k<n. row_ok n k (I ! k) (A ! k))"

text \<open>The render modes with which \<open>step\<close> gets past its call of \<open>render\<close>.\<close>

definition render_ok :: "env \<Rightarrow> bool" where
  "render_ok s \<longleftrightarrow> render_mode s = Some ''human'' \<or> render_mode s = Some ''array''"

text \<open>
  An input of \<open>step\<close> that is well formed for the action space and the generator: every
  agent has an action whose \<open>pol\<close> part has \<open>2 * N\<close> entries, and each drawn invite target is
  an index below \<open>N\<close>.
\<close>

definition valid_input :: "(string \<rightharpoonup> action) \<times> (nat \<Rightarrow> pol_draw) \<Rightarrow> bool" where
  "valid_input x \<longleftrightarrow>
     list_all (\<lambda>a. case fst x a of None \<Rightarrow> False | Some act \<Rightarrow> length (pol act) = 2 * N)
       possible_agents \<and>
     list_all (\<lambda>i. choice (snd x i) < N) [0..<N]"

text \<open>
  The state and the outputs of a returning call of \<open>step\<close>, from the state before, the actions
  and the invite and accept matrices of the call.
\<close>

definition step_post ::
  "env \<Rightarrow> action list \<Rightarrow> mat \<Rightarrow> bool list list \<Rightarrow> env \<Rightarrow> step_out \<Rightarrow> bool" where
  "step_post s acts I A s' out \<longleftrightarrow>
     s' = (eco_macro (eco_trade s (map eco acts)))
            \<lparr>delta_affinity := delta_affinity_of I A,
             affinity := mat_map2 (+) (affinity s) (delta_affinity_of I A),
             t := t s + 1, agents := (if 100 \<le> t s + 1 then [] else possible_agents)\<rparr> \<and>
     observations out =
       map_of (map (\<lambda>(i, agent). (agent, concat (obs_matrix s' i))) (enumerate 0 possible_agents)) \<and>
     rewards out = map_of (zip possible_agents (matvec (affinity s') (eco_reward s'))) \<and>
     terminations out = const_dict possible_agents (100 \<le> t s + 1) \<and>
     truncations out = const_dict possible_agents (100 \<le> t s + 1) \<and>
     infos out = const_dict possible_agents ()"

subsection \<open>Concrete inputs\<close>

text \<open>
  The instance that the main block of the source constructs,
  \<^verbatim>\<open>CombinedEnv(render_mode='human')\<close>; the attributes that only \<open>reset\<close> and \<open>step\<close> assign
  are empty arrays here.
\<close>

definition env0 :: env where
  "env0 = \<lparr>render_mode = Some ''human'', agents = possible_agents, t = 0,
            prev_gdp = [], gdp = [], GDP = [], one_plus_gdp_growth_rate = [],
            prev_price_lvl = [], price_lvl = [], one_plus_inf_rate = [],
            PREV_NET_EX = [], NET_EX = [], eco_observation = [],
            affinity = [], delta_affinity = [], one_plus_int_rate = [], total_demand = [],
            nom_exchange_rate = [], real_exchange_rate = [], FOR_EXP = [], TRADE_COEFF = [],
            EX' = [], TRADE_COEFF_STAR = [], EX_STAR = [], IM = [], eco_reward = []\<rparr>"

text \<open>Two sets of draws for \<open>reset\<close>, which differ in the draws for \<open>gdp\<close>.\<close>

definition z0 :: reset_draws where
  "z0 = \<lparr>z_prev_gdp = (\<lambda>i. 0), z_gdp = (\<lambda>i. real i), z_prev_price_lvl = (\<lambda>i. 0),
          z_price_lvl = (\<lambda>i. 0), z_prev_net_ex = (\<lambda>i. 0), z_net_ex = (\<lambda>i. 0)\<rparr>"

definition z1 :: reset_draws where
  "z1 = \<lparr>z_prev_gdp = (\<lambda>i. 0), z_gdp = (\<lambda>i. 1 + real i), z_prev_price_lvl = (\<lambda>i. 0),
          z_price_lvl = (\<lambda>i. 0), z_prev_net_ex = (\<lambda>i. 0), z_net_ex = (\<lambda>i. 0)\<rparr>"

text \<open>
  Every agent plays the zero action; agent \<open>i\<close> draws agent \<open>i + 1\<close> as its invite target, and all
  uniform draws are 0.
\<close>

definition acts0 :: "string \<rightharpoonup> action" where
  "acts0 = (\<lambda>a. Some \<lparr>eco = 0, pol = replicate 14 0\<rparr>)"

definition pdraws0 :: "nat \<Rightarrow> pol_draw" where
  "pdraws0 = (\<lambda>i. \<lparr>choice = (i + 1) mod 7, uniform = (\<lambda>j. 0)\<rparr>)"

text \<open>The state after \<open>reset\<close> of that instance.\<close>

definition state0 :: env where
  "state0 = fst (reset env0 None z0)"

text \<open>The invite and accept matrices that these actions and draws lead to.\<close>

definition invites0 :: mat where
  "invites0 = [[0,1,0,0,0,0,0], [0,0,1,0,0,0,0], [0,0,0,1,0,0,0], [0,0,0,0,1,0,0],
               [0,0,0,0,0,1,0], [0,0,0,0,0,0,1], [1,0,0,0,0,0,0]]"

definition accepts0 :: "bool list list" where
  "accepts0 = [[False,True,True,True,True,True,True], [True,False,True,True,True,True,True],
               [True,True,False,True,True,True,True], [True,True,True,False,True,True,True],
               [True,True,True,True,False,True,True], [True,True,True,True,True,False,True],
               [True,True,True,True,True,True,False]]"

text \<open>The result of the first call of \<open>step\<close> after that \<open>reset\<close>.\<close>

definition result0 :: "env \<times> step_out" where
  "result0 = projr (step state0 acts0 pdraws0)"

section \<open>Properties\<close>

subsection \<open>Square matrices\<close>

lemma square_nth: "square n M \<Longrightarrow> i < n \<Longrightarrow> length (M ! i) = n"
  by (simp add: square_def list_all_length)

lemma square_length: "square n M \<Longrightarrow> length M = n"
  by (simp add: square_def)

lemma squareI: "length M = n \<Longrightarrow> (\<And>i. i < n \<Longrightarrow> length (M ! i) = n) \<Longrightarrow> square n M"
  by (simp add: square_def list_all_length)

lemma transpose_square:
  assumes "square n M"
  shows "transpose M = map (\<lambda>i. map (\<lambda>j. M ! j ! i) [0..<n]) [0..<n]"
proof -
  have "transpose M = map (\<lambda>i. map (\<lambda>j. M ! j ! i) [0..<length M]) [0..<n]"
    using assms by (intro transpose_rectangle) (auto simp: square_def list_all_length)
  then show ?thesis using assms by (simp add: square_def)
qed

lemma mat_eqI:
  assumes "square n A" "square n B" "\<And>i j. i < n \<Longrightarrow> j < n \<Longrightarrow> A ! i ! j = B ! i ! j"
  shows "A = B"
proof (rule nth_equalityI)
  show "length A = length B" using assms by (simp add: square_def)
  fix i assume "i < length A"
  then have i: "i < n" using assms by (simp add: square_def)
  show "A ! i = B ! i"
    by (rule nth_equalityI) (use i assms in \<open>auto simp: square_nth\<close>)
qed


lemma square_outer_sub: "square (length xs) (outer_sub xs xs)"
  by (simp add: square_def outer_sub_def list_all_length)

lemma square_mat_scale: "square n A \<Longrightarrow> square n (mat_scale c A)"
  by (simp add: square_def mat_scale_def list_all_length)

lemma square_map_map: "square n A \<Longrightarrow> square n (map (map f) A)"
  by (simp add: square_def list_all_length)

lemma square_fill_diagonal: "square n A \<Longrightarrow> square n (fill_diagonal A v)"
  by (simp add: square_def fill_diagonal_def list_all_length)

lemma nth_fill_diagonal:
  "square n A \<Longrightarrow> i < n \<Longrightarrow> j < n \<Longrightarrow> fill_diagonal A v ! i ! j = (if i = j then v else A ! i ! j)"
  by (auto simp: square_def fill_diagonal_def list_all_length)

lemma square_transpose: "square n A \<Longrightarrow> square n (transpose A)"
  by (simp add: transpose_square) (simp add: square_def list_all_length)

lemma nth_transpose_square:
  "square n A \<Longrightarrow> i < n \<Longrightarrow> j < n \<Longrightarrow> transpose A ! i ! j = A ! j ! i"
  by (simp add: transpose_square)

lemma transpose_transpose_square:
  assumes "square n A"
  shows "transpose (transpose A) = A"
proof (rule mat_eqI [of n])
  have T: "square n (transpose A)" using assms by (rule square_transpose)
  then show "square n (transpose (transpose A))" by (rule square_transpose)
  show "square n A" by fact
  fix i j assume ij: "i < n" "j < n"
  have "transpose (transpose A) ! i ! j = transpose A ! j ! i"
    using T ij by (rule nth_transpose_square)
  also have "\<dots> = A ! i ! j"
    using assms ij(2,1) by (rule nth_transpose_square)
  finally show "transpose (transpose A) ! i ! j = A ! i ! j" .
qed

lemma square_trade_coeff:
  assumes "square n R"
  shows "square n (trade_coeff R)"
proof -
  let ?E = "map (map exp) R"
  have E: "square n ?E" using assms by (rule square_map_map)
  have T: "square n (transpose ?E)" using E by (rule square_transpose)
  have "transpose (transpose ?E) = ?E" using E by (rule transpose_transpose_square)
  then show ?thesis
    using T E unfolding trade_coeff_def Let_def
    by (simp add: square_def list_all_length)
qed

lemma nth_trade_coeff:
  assumes "square n R" "i < n" "j < n"
  shows "trade_coeff R ! i ! j = exp (R ! j ! i) / sum_list (map exp (R ! j))"
proof -
  let ?E = "map (map exp) R"
  have E: "square n ?E" using assms(1) by (rule square_map_map)
  have T: "square n (transpose ?E)" using E by (rule square_transpose)
  have TT: "transpose (transpose ?E) = ?E" using E by (rule transpose_transpose_square)
  have len: "length (transpose ?E ! i) = n" using T assms(2) by (rule square_nth)
  have "trade_coeff R ! i ! j = transpose ?E ! i ! j / sum_list (?E ! j)"
    using assms T E len unfolding trade_coeff_def Let_def TT
    by (simp add: square_def)
  also have "transpose ?E ! i ! j = ?E ! j ! i"
    using E assms(2,3) by (rule nth_transpose_square)
  finally show ?thesis
    using assms by (simp add: square_def list_all_length)
qed

lemma square_trade_coeff_star:
  "square n R \<Longrightarrow> square n (trade_coeff_star R)"
  unfolding trade_coeff_star_def Let_def
  by (simp add: square_def list_all_length)

lemma nth_trade_coeff_star:
  assumes "square n R" "i < n" "j < n"
  shows "trade_coeff_star R ! i ! j = exp (R ! i ! j) / sum_list (map exp (R ! i))"
  using assms unfolding trade_coeff_star_def Let_def
  by (simp add: square_def list_all_length)

lemma transpose_temp:
  assumes "square n R"
  shows "transpose (fill_diagonal (trade_coeff R) 0) = fill_diagonal (trade_coeff_star R) 0"
proof (rule mat_eqI [of n])
  have A: "square n (fill_diagonal (trade_coeff R) 0)"
    using assms by (intro square_fill_diagonal square_trade_coeff)
  show "square n (transpose (fill_diagonal (trade_coeff R) 0))"
    using A by (rule square_transpose)
  show "square n (fill_diagonal (trade_coeff_star R) 0)"
    using assms by (intro square_fill_diagonal square_trade_coeff_star)
  fix i j assume ij: "i < n" "j < n"
  have "transpose (fill_diagonal (trade_coeff R) 0) ! i ! j = fill_diagonal (trade_coeff R) 0 ! j ! i"
    using A ij by (rule nth_transpose_square)
  also have "\<dots> = (if j = i then 0 else trade_coeff R ! j ! i)"
    using assms ij by (simp add: nth_fill_diagonal [of n] square_trade_coeff)
  also have "\<dots> = (if i = j then 0 else trade_coeff_star R ! i ! j)"
    using assms ij by (simp add: nth_trade_coeff [of n] nth_trade_coeff_star [of n])
  also have "\<dots> = fill_diagonal (trade_coeff_star R) 0 ! i ! j"
    using assms ij by (simp add: nth_fill_diagonal [of n] square_trade_coeff_star)
  finally show "transpose (fill_diagonal (trade_coeff R) 0) ! i ! j
      = fill_diagonal (trade_coeff_star R) 0 ! i ! j" .
qed

lemma exports_eq_exports_star:
  "square n R \<Longrightarrow> exports (trade_coeff R) fe = exports_star (trade_coeff_star R) fe"
  by (simp add: exports_def exports_star_def transpose_temp)

lemma square_mat_map2: "square n A \<Longrightarrow> square n B \<Longrightarrow> square n (mat_map2 f A B)"
  by (simp add: square_def mat_map2_def list_all_length)

lemma nth_mat_map2:
  "square n A \<Longrightarrow> square n B \<Longrightarrow> i < n \<Longrightarrow> j < n \<Longrightarrow> mat_map2 f A B ! i ! j = f (A ! i ! j) (B ! i ! j)"
  by (simp add: square_def mat_map2_def list_all_length)

lemma nth_mat_scale:
  "square n A \<Longrightarrow> i < n \<Longrightarrow> j < n \<Longrightarrow> mat_scale c A ! i ! j = c * A ! i ! j"
  by (simp add: square_def mat_scale_def list_all_length)

lemma less_bc_length:
  "less_bc u p = Inr a \<Longrightarrow> 1 < length u \<Longrightarrow> length a = length u"
  by (auto simp: less_bc_def split: if_splits)

lemma one_hot_Inr:
  "one_hot x n = Inr v \<Longrightarrow> 0 < n \<Longrightarrow> x < n \<and> v = (replicate n 0)[x := 1]"
  by (auto simp: one_hot_def Let_def split: if_splits)

lemma nth_update_cases: "j < length xs \<Longrightarrow> xs[i := v] ! j = (if i = j then v else xs ! j)"
  by (cases "i < length xs") (simp_all add: nth_list_update)

lemma list_all_01_one_hot: "list_all (\<lambda>x. x = 0 \<or> x = (1::real)) (((replicate n 0)[x := 1])[i := 0])"
  by (simp add: list_all_length nth_update_cases)

lemma pol_agent_row_ok:
  assumes "pol_agent n i p d = Inr (invite, accept)" "1 < n"
  shows "row_ok n i invite accept"
proof -
  from assms(1) obtain c v a where
    c: "random_choice n (softmax (take n p)) (choice d) = Inr c"
    and v: "one_hot c n = Inr v"
    and a: "less_bc (map (uniform d) [0..<n]) (map sigmoid (drop n p)) = Inr a"
    and i: "i < length v" "i < length a"
    and r: "invite = v[i := 0]" "accept = a[i := False]"
    by (auto simp: pol_agent_def Let_def split: sum.splits if_splits)
  from v assms(2) have v': "v = (replicate n 0)[c := 1]" "c < n"
    using one_hot_Inr [of c n v] by auto
  from a assms(2) have la: "length a = n"
    using less_bc_length [of "map (uniform d) [0..<n]" _ a] by simp
  show ?thesis
    using i r v' la list_all_01_one_hot [of n c i]
    by (simp add: row_ok_def)
qed

lemma pol_loop_rows:
  assumes "pol_loop n i ps draws = Inr (invites, accepts)" "1 < n"
  shows "length invites = length ps \<and> length accepts = length ps \<and>
         (\<forall>k < length ps. row_ok n (i + k) (invites ! k) (accepts ! k))"
  using assms
proof (induction ps arbitrary: i invites accepts)
  case Nil
  then show ?case by simp
next
  case (Cons p ps)
  from Cons.prems(1) obtain inv acc invs accs where
    h: "pol_agent n i p (draws i) = Inr (inv, acc)"
    and t: "pol_loop n (Suc i) ps draws = Inr (invs, accs)"
    and e: "invites = inv # invs" "accepts = acc # accs"
    by (auto split: sum.splits prod.splits)
  have r: "row_ok n i inv acc" using h Cons.prems(2) by (rule pol_agent_row_ok)
  have IH: "length invs = length ps \<and> length accs = length ps \<and>
         (\<forall>k < length ps. row_ok n (Suc i + k) (invs ! k) (accs ! k))"
    using t Cons.prems(2) by (rule Cons.IH)
  show ?case
  proof (intro conjI allI impI)
    show "length invites = length (p # ps)" using e IH by simp
    show "length accepts = length (p # ps)" using e IH by simp
    fix k assume "k < length (p # ps)"
    then show "row_ok n (i + k) (invites ! k) (accepts ! k)"
      using r IH e by (cases k) auto
  qed
qed


lemma vstack_Inr: "vstack X = Inr Y \<Longrightarrow> Y = X"
  by (auto simp: vstack_def split: if_splits)

lemma rows_ok_square: "rows_ok n I A \<Longrightarrow> square n I \<and> square n A"
  by (simp add: rows_ok_def row_ok_def square_def list_all_length)

lemma rows_ok_entries:
  "rows_ok n I A \<Longrightarrow> i < n \<Longrightarrow> j < n \<Longrightarrow> (I ! i ! j = 0 \<or> I ! i ! j = 1) \<and> I ! i ! i = 0"
  by (simp add: rows_ok_def row_ok_def list_all_length)

lemma nth_delta_affinity_of:
  assumes "rows_ok n I A" "i < n" "j < n"
  shows "delta_affinity_of I A ! i ! j
       = delta * 0.5 * (of_bool (A ! j ! i) * I ! i ! j + I ! j ! i * of_bool (A ! i ! j))"
proof -
  let ?B = "map (map of_bool) A :: mat"
  have sq: "square n I" "square n A" using assms(1) rows_ok_square by auto
  have B: "square n ?B" using sq(2) by (rule square_map_map)
  have TB: "square n (transpose ?B)" using B by (rule square_transpose)
  have TI: "square n (transpose I)" using sq(1) by (rule square_transpose)
  have 1: "mat_map2 (*) (transpose ?B) I ! i ! j = transpose ?B ! i ! j * I ! i ! j"
    using TB sq(1) assms(2,3) by (rule nth_mat_map2)
  have 2: "mat_map2 (*) (transpose I) ?B ! i ! j = transpose I ! i ! j * ?B ! i ! j"
    using TI B assms(2,3) by (rule nth_mat_map2)
  have 3: "transpose ?B ! i ! j = ?B ! j ! i" using B assms(2,3) by (rule nth_transpose_square)
  have 4: "transpose I ! i ! j = I ! j ! i" using sq(1) assms(2,3) by (rule nth_transpose_square)
  have 5: "?B ! j ! i = of_bool (A ! j ! i)" "?B ! i ! j = of_bool (A ! i ! j)"
    using sq(2) assms(2,3) by (simp_all add: square_def list_all_length)
  have S: "square n (mat_map2 (*) (transpose ?B) I)" "square n (mat_map2 (*) (transpose I) ?B)"
    using TB TI B sq(1) by (simp_all add: square_mat_map2)
  have "delta_affinity_of I A ! i ! j
      = delta * 0.5 * (mat_map2 (+) (mat_map2 (*) (transpose ?B) I) (mat_map2 (*) (transpose I) ?B) ! i ! j)"
    unfolding delta_affinity_of_def Let_def
    using S assms(2,3) by (intro nth_mat_scale [of n]) (simp_all add: square_mat_map2)
  also have "mat_map2 (+) (mat_map2 (*) (transpose ?B) I) (mat_map2 (*) (transpose I) ?B) ! i ! j
      = mat_map2 (*) (transpose ?B) I ! i ! j + mat_map2 (*) (transpose I) ?B ! i ! j"
    using S assms(2,3) by (rule nth_mat_map2)
  finally show ?thesis by (simp only: 1 2 3 4 5)
qed

lemma square_delta_affinity_of:
  assumes "rows_ok n I A"
  shows "square n (delta_affinity_of I A)"
proof -
  let ?B = "map (map of_bool) A :: mat"
  have sq: "square n I" "square n A" using assms(1) rows_ok_square by auto
  have B: "square n ?B" using sq(2) by (rule square_map_map)
  show ?thesis unfolding delta_affinity_of_def Let_def
    using B sq(1) by (intro square_mat_scale square_mat_map2 square_transpose)
qed

lemma delta_affinity_of_nonneg:
  assumes "rows_ok n I A" "i < n" "j < n"
  shows "0 \<le> delta_affinity_of I A ! i ! j"
proof -
  have "0 \<le> I ! i ! j" "0 \<le> I ! j ! i"
    using rows_ok_entries [OF assms(1)] assms(2,3) by (metis order_refl zero_le_one)+
  then show ?thesis
    using assms by (simp add: nth_delta_affinity_of delta_def)
qed

lemma delta_affinity_of_diag:
  assumes "rows_ok n I A" "i < n"
  shows "delta_affinity_of I A ! i ! i = 0"
  using assms rows_ok_entries [OF assms(1) assms(2) assms(2)]
  by (simp add: nth_delta_affinity_of)

lemma pol_phase_Inr:
  assumes "pol_phase s pa draws = Inr s'" "num_agents s = n" "length pa = n" "1 < n"
  shows "\<exists>I A. rows_ok n I A \<and>
           s' = s\<lparr>delta_affinity := delta_affinity_of I A,
                   affinity := mat_map2 (+) (affinity s) (delta_affinity_of I A)\<rparr>"
proof -
  from assms(1) obtain I0 A0 I A where
    l: "pol_loop (num_agents s) 0 pa draws = Inr (I0, A0)"
    and v: "vstack I0 = Inr I" "vstack A0 = Inr A"
    and s': "s' = s\<lparr>delta_affinity := delta_affinity_of I A,
                   affinity := mat_map2 (+) (affinity s) (delta_affinity_of I A)\<rparr>"
    by (auto simp: pol_phase_def Let_def split: sum.splits prod.splits)
  have e: "I = I0" "A = A0" using v by (simp_all add: vstack_Inr)
  have "rows_ok n I A"
    using pol_loop_rows [of n 0 pa draws I0 A0] l assms(2,3,4) e
    by (simp add: rows_ok_def)
  with s' show ?thesis by blast
qed

subsection \<open>The economic phase\<close>

lemma EX_eq_EX_STAR: "EX' (eco_trade s eco_actions) = EX_STAR (eco_trade s eco_actions)"
proof -
  let ?rate = "map interest_rate eco_actions"
  have "square (length ?rate) (mat_scale (- ex_int_degree) (outer_sub ?rate ?rate))"
    by (intro square_mat_scale square_outer_sub)
  then show ?thesis
    unfolding eco_trade_def Let_def by (simp add: exports_eq_exports_star)
qed

lemma eco_phase_eq:
  "eco_phase s ea = (if length (gdp s) \<noteq> length ea then Inl ValueError
                     else Inr (eco_macro (eco_trade s ea)))"
  by (simp add: eco_phase_def Let_def EX_eq_EX_STAR)

lemma eco_trade_keeps [simp]:
  "agents (eco_trade s ea) = agents s" "t (eco_trade s ea) = t s"
  "render_mode (eco_trade s ea) = render_mode s" "affinity (eco_trade s ea) = affinity s"
  "gdp (eco_trade s ea) = gdp s" "price_lvl (eco_trade s ea) = price_lvl s"
  "NET_EX (eco_trade s ea) = NET_EX s"
  by (simp_all add: eco_trade_def Let_def)

lemma eco_macro_keeps [simp]:
  "agents (eco_macro s) = agents s" "t (eco_macro s) = t s"
  "render_mode (eco_macro s) = render_mode s" "affinity (eco_macro s) = affinity s"
  by (simp_all add: eco_macro_def Let_def)

lemma eco_macro_reward:
  "eco_reward (eco_macro s) =
     map2 eco_reward_of (one_plus_gdp_growth_rate (eco_macro s)) (one_plus_inf_rate (eco_macro s))"
  by (simp add: eco_macro_def Let_def)

lemma eco_macro_observation:
  "eco_observation (eco_macro s) =
     transpose [gdp (eco_macro s), one_plus_gdp_growth_rate (eco_macro s),
                price_lvl (eco_macro s), one_plus_inf_rate (eco_macro s)]"
  by (simp add: eco_macro_def Let_def)

lemma length_matvec [simp]: "length (matvec M v) = length M"
  by (simp add: matvec_def)

lemma length_fill_diagonal [simp]: "length (fill_diagonal M v) = length M"
  by (simp add: fill_diagonal_def)

lemma length_tau_values [simp]: "length tau_values = 7"
  by (simp add: tau_values_def)

lemma eco_trade_lengths:
  assumes "length (gdp s) = 7" "length ea = 7"
  shows "length (one_plus_int_rate (eco_trade s ea)) = 7"
    "length (total_demand (eco_trade s ea)) = 7"
    "length (FOR_EXP (eco_trade s ea)) = 7"
    "length (EX' (eco_trade s ea)) = 7"
    "length (TRADE_COEFF (eco_trade s ea)) = 7"
proof -
  let ?rate = "map interest_rate ea"
  have R: "square 7 (mat_scale (- ex_int_degree) (outer_sub ?rate ?rate))"
    using square_mat_scale [OF square_outer_sub [of ?rate]] assms(2) by simp
  have T: "square 7 (trade_coeff (mat_scale (- ex_int_degree) (outer_sub ?rate ?rate)))"
    using R by (rule square_trade_coeff)
  have F: "square 7 (fill_diagonal (trade_coeff (mat_scale (- ex_int_degree) (outer_sub ?rate ?rate))) 0)"
    using T by (rule square_fill_diagonal)
  show "length (one_plus_int_rate (eco_trade s ea)) = 7"
    "length (total_demand (eco_trade s ea)) = 7"
    "length (FOR_EXP (eco_trade s ea)) = 7"
    using assms by (simp_all add: eco_trade_def Let_def)
  show "length (EX' (eco_trade s ea)) = 7"
    using square_transpose [OF F] by (simp add: eco_trade_def Let_def exports_def square_def)
  show "length (TRADE_COEFF (eco_trade s ea)) = 7"
    using T by (simp add: eco_trade_def Let_def square_def)
qed

lemma eco_macro_lengths:
  assumes "length (gdp s) = 7" "length (price_lvl s) = 7" "length (one_plus_int_rate s) = 7"
    "length (total_demand s) = 7" "length (FOR_EXP s) = 7" "length (EX' s) = 7"
    "length (TRADE_COEFF s) = 7"
  shows "length (gdp (eco_macro s)) = 7" "length (price_lvl (eco_macro s)) = 7"
    "length (one_plus_gdp_growth_rate (eco_macro s)) = 7"
    "length (one_plus_inf_rate (eco_macro s)) = 7"
    "length (eco_reward (eco_macro s)) = 7"
  using assms by (simp_all add: eco_macro_def Let_def)

lemma eco_lengths:
  assumes "length (gdp s) = 7" "length (price_lvl s) = 7" "length ea = 7"
  shows "length (gdp (eco_macro (eco_trade s ea))) = 7"
    "length (price_lvl (eco_macro (eco_trade s ea))) = 7"
    "length (one_plus_gdp_growth_rate (eco_macro (eco_trade s ea))) = 7"
    "length (one_plus_inf_rate (eco_macro (eco_trade s ea))) = 7"
    "length (eco_reward (eco_macro (eco_trade s ea))) = 7"
  using eco_trade_lengths [OF assms(1,3)] assms(1,2)
  by (simp_all add: eco_macro_lengths)

subsection \<open>A returning call of step\<close>

lemma const_dict_apply: "const_dict as v a = (if a \<in> set as then Some v else None)"
  by (induction as) (simp_all add: const_dict_def)

lemma all_values_const_dict: "all_values as (const_dict as v) \<longleftrightarrow> v \<or> as = []"
  by (cases as) (auto simp: all_values_def const_dict_apply list_all_iff)

lemma length_possible_agents [simp]: "length possible_agents = 7"
  by (simp add: possible_agents_def N_def)

lemma possible_agents_nonempty [simp]: "possible_agents \<noteq> []"
  using length_possible_agents by fastforce

lemma finish_step_Inr:
  assumes "finish_step s = Inr (s', out)"
  shows "render_ok s"
    "s' = s\<lparr>t := t s + 1, agents := (if 100 \<le> t s + 1 then [] else agents s)\<rparr>"
    "observations out = build_observations s"
    "rewards out = map_of (zip (agents s) (matvec (affinity s) (eco_reward s)))"
    "terminations out = const_dict (agents s) (100 \<le> t s + 1)"
    "truncations out = const_dict (agents s) (100 \<le> t s + 1)"
    "infos out = const_dict (agents s) ()"
  using assms
  by (auto simp: finish_step_def Let_def render_def render_ok_def all_values_const_dict
      split: if_splits)

lemma finish_step_returns: "render_ok s \<Longrightarrow> \<exists>r. finish_step s = Inr r"
  by (auto simp: finish_step_def Let_def render_def render_ok_def)

lemma those_length: "those xs = Some ys \<Longrightarrow> length ys = length xs"
  by (induction xs arbitrary: ys) (auto split: option.splits)

lemma those_nth: "those xs = Some ys \<Longrightarrow> i < length xs \<Longrightarrow> xs ! i = Some (ys ! i)"
proof (induction xs arbitrary: ys i)
  case Nil
  then show ?case by simp
next
  case (Cons x xs)
  then show ?case by (cases i) (auto split: option.splits)
qed

lemma those_map_Some:
  "list_all (\<lambda>a. f a \<noteq> None) as \<Longrightarrow> \<exists>ys. those (map f as) = Some ys"
  by (induction as) auto

lemma step_Inr:
  assumes "step s actions draws = Inr (s', out)" "wf_env s"
  shows "\<exists>acts I A. agents s = possible_agents \<and>
           those (map actions possible_agents) = Some acts \<and> rows_ok 7 I A \<and>
           finish_step ((eco_macro (eco_trade s (map eco acts)))
              \<lparr>delta_affinity := delta_affinity_of I A,
               affinity := mat_map2 (+) (affinity s) (delta_affinity_of I A)\<rparr>) = Inr (s', out)"
proof -
  from assms(1) obtain acts s1 s2 where
    a: "those (map actions (agents s)) = Some acts"
    and e: "eco_phase s (map eco acts) = Inr s1"
    and p: "pol_phase s1 (map pol acts) draws = Inr s2"
    and f: "finish_step s2 = Inr (s', out)"
    by (auto simp: step_def split: option.splits sum.splits)
  have la: "length acts = length (agents s)" using those_length [OF a] by simp
  from e have g: "length (gdp s) = length acts" and s1: "s1 = eco_macro (eco_trade s (map eco acts))"
    by (auto simp: eco_phase_eq split: if_splits)
  from assms(2) g la have ag: "agents s = possible_agents"
    by (auto simp: wf_env_def N_def)
  then have n: "length acts = 7" using la by simp
  have "num_agents s1 = 7" using s1 ag by (simp add: num_agents_def)
  from pol_phase_Inr [OF p this] n obtain I A where
    r: "rows_ok 7 I A" and s2: "s2 = s1\<lparr>delta_affinity := delta_affinity_of I A,
                   affinity := mat_map2 (+) (affinity s1) (delta_affinity_of I A)\<rparr>"
    by auto
  show ?thesis
    using a ag r f s1 s2 by auto
qed

lemma obs_matrix_cong:
  "eco_observation s = eco_observation s' \<Longrightarrow> affinity s = affinity s' \<Longrightarrow> obs_matrix s i = obs_matrix s' i"
  by (simp add: obs_matrix_def)

lemma step_result:
  assumes "step s actions draws = Inr (s', out)" "wf_env s"
  shows "\<exists>acts I A. agents s = possible_agents \<and>
           those (map actions possible_agents) = Some acts \<and> rows_ok 7 I A \<and>
           render_ok s \<and> step_post s acts I A s' out"
proof -
  from step_Inr [OF assms] obtain acts I A where
    ag: "agents s = possible_agents"
    and a: "those (map actions possible_agents) = Some acts"
    and r: "rows_ok 7 I A"
    and f: "finish_step ((eco_macro (eco_trade s (map eco acts)))
              \<lparr>delta_affinity := delta_affinity_of I A,
               affinity := mat_map2 (+) (affinity s) (delta_affinity_of I A)\<rparr>) = Inr (s', out)"
    by blast
  let ?s3 = "(eco_macro (eco_trade s (map eco acts)))
              \<lparr>delta_affinity := delta_affinity_of I A,
               affinity := mat_map2 (+) (affinity s) (delta_affinity_of I A)\<rparr>"
  note F = finish_step_Inr [OF f]
  have s': "s' = (eco_macro (eco_trade s (map eco acts)))
                  \<lparr>delta_affinity := delta_affinity_of I A,
                   affinity := mat_map2 (+) (affinity s) (delta_affinity_of I A),
                   t := t s + 1, agents := (if 100 \<le> t s + 1 then [] else possible_agents)\<rparr>"
    using F(2) ag by simp
  have ro: "render_ok s" using F(1) by (simp add: render_ok_def)
  have om: "obs_matrix ?s3 i = obs_matrix s' i" for i
    by (rule obs_matrix_cong) (simp_all add: s')
  have o: "observations out =
             map_of (map (\<lambda>(i, agent). (agent, concat (obs_matrix s' i))) (enumerate 0 possible_agents))"
    using F(3) ag by (simp add: build_observations_def om)
  have rw: "rewards out = map_of (zip possible_agents (matvec (affinity s') (eco_reward s')))"
    using F(4) ag by (simp add: s')
  have "terminations out = const_dict possible_agents (100 \<le> t s + 1)"
    "truncations out = const_dict possible_agents (100 \<le> t s + 1)"
    "infos out = const_dict possible_agents ()"
    using F(5,6,7) ag by simp_all
  with s' o rw have "step_post s acts I A s' out"
    unfolding step_post_def by (intro conjI)
  with ag a r ro show ?thesis by blast
qed

lemma step_post_state:
  assumes "step_post s acts I A s' out"
  shows "delta_affinity s' = delta_affinity_of I A"
    "affinity s' = mat_map2 (+) (affinity s) (delta_affinity_of I A)"
    "t s' = t s + 1" "render_mode s' = render_mode s"
    "agents s' = (if 100 \<le> t s + 1 then [] else possible_agents)"
    "gdp s' = gdp (eco_macro (eco_trade s (map eco acts)))"
    "price_lvl s' = price_lvl (eco_macro (eco_trade s (map eco acts)))"
    "one_plus_gdp_growth_rate s' = one_plus_gdp_growth_rate (eco_macro (eco_trade s (map eco acts)))"
    "one_plus_inf_rate s' = one_plus_inf_rate (eco_macro (eco_trade s (map eco acts)))"
    "eco_reward s' = eco_reward (eco_macro (eco_trade s (map eco acts)))"
    "eco_observation s' = eco_observation (eco_macro (eco_trade s (map eco acts)))"
proof -
  have s': "s' = (eco_macro (eco_trade s (map eco acts)))
            \<lparr>delta_affinity := delta_affinity_of I A,
             affinity := mat_map2 (+) (affinity s) (delta_affinity_of I A),
             t := t s + 1, agents := (if 100 \<le> t s + 1 then [] else possible_agents)\<rparr>"
    using assms by (simp add: step_post_def)
  show "delta_affinity s' = delta_affinity_of I A"
    "affinity s' = mat_map2 (+) (affinity s) (delta_affinity_of I A)"
    "t s' = t s + 1" "render_mode s' = render_mode s"
    "agents s' = (if 100 \<le> t s + 1 then [] else possible_agents)"
    "gdp s' = gdp (eco_macro (eco_trade s (map eco acts)))"
    "price_lvl s' = price_lvl (eco_macro (eco_trade s (map eco acts)))"
    "one_plus_gdp_growth_rate s' = one_plus_gdp_growth_rate (eco_macro (eco_trade s (map eco acts)))"
    "one_plus_inf_rate s' = one_plus_inf_rate (eco_macro (eco_trade s (map eco acts)))"
    "eco_reward s' = eco_reward (eco_macro (eco_trade s (map eco acts)))"
    "eco_observation s' = eco_observation (eco_macro (eco_trade s (map eco acts)))"
    by (simp_all add: s')
qed

lemma step_post_out:
  assumes "step_post s acts I A s' out"
  shows "observations out =
       map_of (map (\<lambda>(i, agent). (agent, concat (obs_matrix s' i))) (enumerate 0 possible_agents))"
    "rewards out = map_of (zip possible_agents (matvec (affinity s') (eco_reward s')))"
    "terminations out = const_dict possible_agents (100 \<le> t s + 1)"
    "truncations out = const_dict possible_agents (100 \<le> t s + 1)"
    "infos out = const_dict possible_agents ()"
  using assms by (simp_all add: step_post_def)

lemma possible_agents_eq:
  "possible_agents = [''agent_0'', ''agent_1'', ''agent_2'', ''agent_3'', ''agent_4'', ''agent_5'', ''agent_6'']"
  by (simp add: possible_agents_def N_def agent_name_def str_nat.simps digit_char_def upt_rec)

lemma distinct_possible_agents: "distinct possible_agents"
  by (simp add: possible_agents_eq)

lemma nth_matvec:
  assumes "i < length M" "length (M ! i) = n" "length v = n"
  shows "matvec M v ! i = (\<Sum>j<n. M ! i ! j * v ! j)"
proof -
  have "matvec M v ! i = sum_list (map2 (*) (M ! i) v)"
    using assms(1) by (simp add: matvec_def)
  also have "\<dots> = (\<Sum>j = 0..<n. map2 (*) (M ! i) v ! j)"
    using assms(2,3) by (simp add: sum_list_sum_nth)
  also have "\<dots> = (\<Sum>j = 0..<n. M ! i ! j * v ! j)"
    using assms(2,3) by (intro sum.cong) simp_all
  finally show ?thesis by (simp add: lessThan_atLeast0)
qed

lemma wf_env_square: "wf_env s \<Longrightarrow> square 7 (affinity s)"
  by (simp add: wf_env_def N_def)

text \<open>The affinity after a returning step.\<close>

lemma step_affinity_entries:
  assumes "step s actions draws = Inr (s', out)" "wf_env s" "i < 7" "j < 7"
  shows "affinity s' ! i ! j = affinity s ! i ! j + delta_affinity s' ! i ! j"
    "0 \<le> delta_affinity s' ! i ! j" "delta_affinity s' ! i ! i = 0"
    "square 7 (affinity s')"
proof -
  from step_result [OF assms(1,2)] obtain acts I A where
    r: "rows_ok 7 I A" and p: "step_post s acts I A s' out"
    by blast
  note d = step_post_state(1) [OF p] and a = step_post_state(2) [OF p]
  have D: "square 7 (delta_affinity_of I A)" using r by (rule square_delta_affinity_of)
  have S: "square 7 (affinity s)" using assms(2) by (rule wf_env_square)
  show "affinity s' ! i ! j = affinity s ! i ! j + delta_affinity s' ! i ! j"
    unfolding a d using S D assms(3,4) by (rule nth_mat_map2)
  show "0 \<le> delta_affinity s' ! i ! j"
    unfolding d using r assms(3,4) by (rule delta_affinity_of_nonneg)
  show "delta_affinity s' ! i ! i = 0"
    unfolding d using r assms(3) by (rule delta_affinity_of_diag)
  show "square 7 (affinity s')"
    unfolding a using S D by (rule square_mat_map2)
qed

text \<open>The economic fields after a returning step.\<close>

lemma step_eco:
  assumes "step s actions draws = Inr (s', out)" "wf_env s"
  shows "length (gdp s') = 7" "length (price_lvl s') = 7"
    "length (one_plus_gdp_growth_rate s') = 7" "length (one_plus_inf_rate s') = 7"
    "length (eco_reward s') = 7"
    "eco_reward s' = map2 eco_reward_of (one_plus_gdp_growth_rate s') (one_plus_inf_rate s')"
    "eco_observation s' = transpose [gdp s', one_plus_gdp_growth_rate s', price_lvl s', one_plus_inf_rate s']"
proof -
  from step_result [OF assms] obtain acts I A where
    a: "those (map actions possible_agents) = Some acts"
    and p: "step_post s acts I A s' out"
    by blast
  note P = step_post_state [OF p]
  have n: "length (map eco acts) = 7" using those_length [OF a] by simp
  have g: "length (gdp s) = 7" "length (price_lvl s) = 7"
    using assms(2) by (simp_all add: wf_env_def N_def)
  note L = eco_lengths [OF g n]
  show "length (gdp s') = 7" "length (price_lvl s') = 7"
    "length (one_plus_gdp_growth_rate s') = 7" "length (one_plus_inf_rate s') = 7"
    "length (eco_reward s') = 7"
    using L by (simp_all add: P)
  show "eco_reward s' = map2 eco_reward_of (one_plus_gdp_growth_rate s') (one_plus_inf_rate s')"
    using eco_macro_reward [of "eco_trade s (map eco acts)"] by (simp add: P)
  show "eco_observation s' = transpose [gdp s', one_plus_gdp_growth_rate s', price_lvl s', one_plus_inf_rate s']"
    using eco_macro_observation [of "eco_trade s (map eco acts)"] by (simp add: P)
qed

lemma step_t_agents:
  assumes "step s actions draws = Inr (s', out)" "wf_env s"
  shows "agents s = possible_agents" "t s' = t s + 1" "render_mode s' = render_mode s"
    "agents s' = (if 100 \<le> t s + 1 then [] else possible_agents)" "render_ok s"
    "terminations out = const_dict possible_agents (100 \<le> t s + 1)"
    "truncations out = const_dict possible_agents (100 \<le> t s + 1)"
proof -
  from step_result [OF assms] obtain acts I A where
    h: "agents s = possible_agents" "render_ok s"
    and p: "step_post s acts I A s' out"
    by blast
  show "agents s = possible_agents" "render_ok s"
    by (rule h)+
  show "t s' = t s + 1" "render_mode s' = render_mode s"
    "agents s' = (if 100 \<le> t s + 1 then [] else possible_agents)"
    by (rule step_post_state [OF p])+
  show "terminations out = const_dict possible_agents (100 \<le> t s + 1)"
    "truncations out = const_dict possible_agents (100 \<le> t s + 1)"
    by (rule step_post_out [OF p])+
qed

lemma step_wf_env:
  assumes "step s actions draws = Inr (s', out)" "wf_env s"
  shows "wf_env s'"
  using step_eco(1,2) [OF assms] step_affinity_entries(4) [OF assms, of 0 0]
    step_t_agents(4) [OF assms]
  by (simp add: wf_env_def N_def)

lemma step_rewards:
  assumes "step s actions draws = Inr (s', out)" "wf_env s" "i < 7"
  shows "rewards out (possible_agents ! i) = Some (\<Sum>j<7. affinity s' ! i ! j * eco_reward s' ! j)"
proof -
  have S: "square 7 (affinity s')" using step_affinity_entries(4) [OF assms(1,2), of 0 0] by simp
  from step_result [OF assms(1,2)] obtain acts I A where p: "step_post s acts I A s' out"
    by blast
  note r = step_post_out(2) [OF p]
  have "rewards out (possible_agents ! i) = Some (matvec (affinity s') (eco_reward s') ! i)"
    unfolding r using S assms(3) distinct_possible_agents
    by (intro map_of_zip_nth) (simp_all add: square_def)
  also have "matvec (affinity s') (eco_reward s') ! i = (\<Sum>j<7. affinity s' ! i ! j * eco_reward s' ! j)"
    using S assms(3) step_eco(5) [OF assms(1,2)]
    by (intro nth_matvec) (simp_all add: square_def list_all_length)
  finally show ?thesis .
qed

subsection \<open>Calls that return\<close>

lemma pol_agent_returns:
  assumes "1 < n" "length p = 2 * n" "choice d < n" "i < n"
  shows "\<exists>r. pol_agent n i p d = Inr r"
  using assms
  by (simp add: pol_agent_def Let_def random_choice_def one_hot_def less_bc_def softmax_def)

lemma pol_loop_returns:
  assumes "1 < n" "list_all (\<lambda>p. length p = 2 * n) ps"
    "\<And>k. k < length ps \<Longrightarrow> choice (draws (i + k)) < n" "i + length ps \<le> n"
  shows "\<exists>r. pol_loop n i ps draws = Inr r"
  using assms
proof (induction ps arbitrary: i)
  case Nil
  then show ?case by simp
next
  case (Cons p ps)
  have "choice (draws i) < n" using Cons.prems(3) [of 0] by simp
  then obtain r where r: "pol_agent n i p (draws i) = Inr r"
    using pol_agent_returns [of n p "draws i" i] Cons.prems by auto
  have "\<exists>r. pol_loop n (Suc i) ps draws = Inr r"
  proof (rule Cons.IH)
    show "1 < n" by fact
    show "list_all (\<lambda>p. length p = 2 * n) ps" using Cons.prems(2) by simp
    show "Suc i + length ps \<le> n" using Cons.prems(4) by simp
    show "choice (draws (Suc i + k)) < n" if "k < length ps" for k
      using Cons.prems(3) [of "Suc k"] that by simp
  qed
  then obtain r' where r': "pol_loop n (Suc i) ps draws = Inr r'" by blast
  show ?case using r r' by (cases r; cases r') simp
qed

lemma vstack_returns:
  "X \<noteq> [] \<Longrightarrow> list_all (\<lambda>r. length r = n) X \<Longrightarrow> vstack X = Inr X"
  by (cases X) (auto simp: vstack_def list_all_iff)

lemma pol_phase_returns:
  assumes "1 < n" "num_agents s = n" "length pa = n" "list_all (\<lambda>p. length p = 2 * n) pa"
    "\<And>k. k < n \<Longrightarrow> choice (draws k) < n"
  shows "\<exists>s'. pol_phase s pa draws = Inr s'"
proof -
  have "\<exists>r. pol_loop n 0 pa draws = Inr r"
    using assms by (intro pol_loop_returns) simp_all
  then obtain I A where l: "pol_loop n 0 pa draws = Inr (I, A)" by (metis surj_pair)
  note R = pol_loop_rows [OF l assms(1)]
  have ne: "I \<noteq> []" "A \<noteq> []" using R assms(1,3) by auto
  have "list_all (\<lambda>r. length r = n) I" "list_all (\<lambda>r. length r = n) A"
    using R by (simp_all add: list_all_length row_ok_def)
  then have "vstack I = Inr I" "vstack A = Inr A"
    using ne by (simp_all add: vstack_returns)
  then show ?thesis
    using l assms(2) by (simp add: pol_phase_def Let_def)
qed

lemma valid_input_those:
  assumes "valid_input (actions, draws)"
  shows "\<exists>acts. those (map actions possible_agents) = Some acts \<and>
           list_all (\<lambda>a. length (pol a) = 14) acts"
proof -
  have v: "list_all (\<lambda>a. case actions a of None \<Rightarrow> False | Some act \<Rightarrow> length (pol act) = 2 * N)
       possible_agents"
    using assms by (simp add: valid_input_def)
  then have "list_all (\<lambda>a. actions a \<noteq> None) possible_agents"
    by (auto simp: list_all_iff split: option.splits)
  then obtain acts where a: "those (map actions possible_agents) = Some acts"
    using those_map_Some by blast
  have "length (pol (acts ! i)) = 14" if "i < length acts" for i
  proof -
    have i: "i < length possible_agents" using that those_length [OF a] by simp
    then have "actions (possible_agents ! i) = Some (acts ! i)"
      using those_nth [OF a, of i] by simp
    moreover have "case actions (possible_agents ! i) of None \<Rightarrow> False | Some act \<Rightarrow> length (pol act) = 2 * N"
      using v i by (simp add: list_all_length)
    ultimately show ?thesis by (simp add: N_def)
  qed
  then show ?thesis using a by (auto simp: list_all_length)
qed

lemma step_returns:
  assumes "wf_env s" "agents s = possible_agents" "render_ok s" "valid_input (actions, draws)"
  shows "\<exists>r. step s actions draws = Inr r"
proof -
  from valid_input_those [OF assms(4)] obtain acts where
    a: "those (map actions possible_agents) = Some acts"
    and l: "list_all (\<lambda>a. length (pol a) = 14) acts"
    by blast
  have n: "length acts = 7" using those_length [OF a] by simp
  have g: "length (gdp s) = 7" using assms(1) by (simp add: wf_env_def N_def)
  let ?s1 = "eco_macro (eco_trade s (map eco acts))"
  have e: "eco_phase s (map eco acts) = Inr ?s1"
    using g n by (simp add: eco_phase_eq)
  have c: "choice (draws k) < 7" if "k < 7" for k
    using assms(4) that by (simp add: valid_input_def N_def list_all_iff)
  have "\<exists>s'. pol_phase ?s1 (map pol acts) draws = Inr s'"
  proof (rule pol_phase_returns [of 7])
    show "num_agents ?s1 = 7" using assms(2) by (simp add: num_agents_def)
    show "list_all (\<lambda>p. length p = 2 * 7) (map pol acts)"
      using l by (simp add: list_all_iff)
  qed (use n c in simp_all)
  then obtain s2 where p: "pol_phase ?s1 (map pol acts) draws = Inr s2" by blast
  from pol_phase_Inr [OF p, of 7] n assms(2) have "render_mode s2 = render_mode s"
    by (auto simp: num_agents_def)
  then have "render_ok s2" using assms(3) by (simp add: render_ok_def)
  then obtain r where "finish_step s2 = Inr r" using finish_step_returns by blast
  then show ?thesis
    using a e p assms(2) by (simp add: step_def)
qed

text \<open>The state after \<open>reset\<close>.\<close>

lemma square_eye: "square n (eye n)"
  by (simp add: square_def eye_def list_all_length)

lemma nth_eye: "i < n \<Longrightarrow> j < n \<Longrightarrow> eye n ! i ! j = (if i = j then 1 else 0)"
  by (simp add: eye_def)

lemma reset_state:
  "agents (fst (reset e seed z)) = possible_agents"
  "t (fst (reset e seed z)) = 0"
  "render_mode (fst (reset e seed z)) = render_mode e"
  "affinity (fst (reset e seed z)) = eye 7"
  "length (gdp (fst (reset e seed z))) = 7"
  "length (price_lvl (fst (reset e seed z))) = 7"
  by (simp_all add: reset_def Let_def num_agents_def randn_def)

lemma reset_wf_env: "wf_env (fst (reset e seed z))"
  by (simp add: wf_env_def reset_state N_def square_eye)

subsection \<open>Episodes\<close>

lemma run_length: "run s xs = Inr rs \<Longrightarrow> length rs = length xs"
  by (induction xs arbitrary: s rs) (auto split: sum.splits)

lemma run_episode:
  assumes "run s xs = Inr rs" "wf_env s" "k < length rs"
  shows "wf_env (fst (rs ! k)) \<and> t (fst (rs ! k)) = t s + k + 1 \<and>
         render_mode (fst (rs ! k)) = render_mode s \<and>
         agents (fst (rs ! k)) = (if 100 \<le> t s + k + 1 then [] else possible_agents) \<and>
         terminations (snd (rs ! k)) = const_dict possible_agents (100 \<le> t s + k + 1) \<and>
         truncations (snd (rs ! k)) = const_dict possible_agents (100 \<le> t s + k + 1)"
  using assms
proof (induction xs arbitrary: s rs k)
  case Nil
  then show ?case by simp
next
  case (Cons x xs)
  from Cons.prems(1) obtain r rs' where
    r: "step s (fst x) (snd x) = Inr r" and rs': "run (fst r) xs = Inr rs'" and e: "rs = r # rs'"
    by (auto split: sum.splits)
  have r': "step s (fst x) (snd x) = Inr (fst r, snd r)" using r by simp
  note T = step_t_agents [OF r' Cons.prems(2)]
  have wf: "wf_env (fst r)" using r' Cons.prems(2) by (rule step_wf_env)
  show ?case
  proof (cases k)
    case 0
    then show ?thesis using e wf T by simp
  next
    case (Suc k')
    then have "k' < length rs'" using Cons.prems(3) e by simp
    from Cons.IH [OF rs' wf this] show ?thesis
      using e Suc T(2,3) by simp
  qed
qed

lemma run_returns:
  assumes "wf_env s" "agents s = possible_agents" "render_ok s" "t s + length xs \<le> 100"
    "list_all valid_input xs"
  shows "\<exists>rs. run s xs = Inr rs"
  using assms
proof (induction xs arbitrary: s)
  case Nil
  then show ?case by simp
next
  case (Cons x xs)
  have "valid_input (fst x, snd x)" using Cons.prems(5) by simp
  from step_returns [OF Cons.prems(1,2,3) this] obtain r where
    r: "step s (fst x) (snd x) = Inr r" by blast
  then have r': "step s (fst x) (snd x) = Inr (fst r, snd r)" by simp
  note T = step_t_agents [OF r' Cons.prems(1)]
  have wf: "wf_env (fst r)" using r' Cons.prems(1) by (rule step_wf_env)
  have "\<exists>rs. run (fst r) xs = Inr rs"
  proof (cases xs)
    case Nil
    then show ?thesis by simp
  next
    case (Cons y ys)
    then have "t s + 1 < 100" using Cons.prems(4) by simp
    then have ag: "agents (fst r) = possible_agents" using T(4) by simp
    have ro: "render_ok (fst r)" using Cons.prems(3) T(3) by (simp add: render_ok_def)
    show ?thesis
      using Cons.prems(4,5) T(2) by (intro Cons.IH [OF wf ag ro]) simp_all
  qed
  then show ?case using r by auto
qed

lemma run_diagonal:
  assumes "run s xs = Inr rs" "wf_env s" "k < length rs" "i < 7"
  shows "affinity (fst (rs ! k)) ! i ! i = affinity s ! i ! i \<and>
         delta_affinity (fst (rs ! k)) ! i ! i = 0"
  using assms
proof (induction xs arbitrary: s rs k)
  case Nil
  then show ?case by simp
next
  case (Cons x xs)
  from Cons.prems(1) obtain r rs' where
    r: "step s (fst x) (snd x) = Inr r" and rs': "run (fst r) xs = Inr rs'" and e: "rs = r # rs'"
    by (auto split: sum.splits)
  have r': "step s (fst x) (snd x) = Inr (fst r, snd r)" using r by simp
  note A = step_affinity_entries [OF r' Cons.prems(2) Cons.prems(4) Cons.prems(4)]
  have wf: "wf_env (fst r)" using r' Cons.prems(2) by (rule step_wf_env)
  show ?case
  proof (cases k)
    case 0
    then show ?thesis using e A by simp
  next
    case (Suc k')
    then have "k' < length rs'" using Cons.prems(3) e by simp
    from Cons.IH [OF rs' wf this Cons.prems(4)] show ?thesis
      using e Suc A by simp
  qed
qed

subsection \<open>Observations\<close>

lemma np_roll_0 [simp]: "np_roll xs 0 = xs"
  by (simp add: np_roll_def)

lemma length_np_roll [simp]: "length (np_roll xs i) = length xs"
  by (auto simp: np_roll_def Let_def)

lemma nth_np_roll:
  assumes "k < length xs"
  shows "np_roll xs i ! k = xs ! ((k + length xs - i mod length xs) mod length xs)"
proof -
  define n where "n = length xs"
  define m where "m = i mod n"
  have n: "0 < n" using assms unfolding n_def by (cases xs) simp_all
  then have m: "m < n" unfolding m_def by simp
  have kn: "k < n" using assms by (simp add: n_def)
  have ne: "xs \<noteq> []" using n unfolding n_def by simp
  have roll: "np_roll xs i = drop (n - m) xs @ take (n - m) xs"
    using ne by (simp add: np_roll_def Let_def n_def m_def)
  have len: "length (drop (n - m) xs) = m" using m by (simp add: n_def)
  show ?thesis
  proof (cases "k < m")
    case True
    have "k + n - m < n" using True m by arith
    then have "(k + n - m) mod n = k + n - m" by simp
    also have "\<dots> = n - m + k" using m by arith
    finally have 1: "(k + n - m) mod n = n - m + k" .
    have "np_roll xs i ! k = drop (n - m) xs ! k"
      unfolding roll using True len by (simp add: nth_append)
    also have "\<dots> = xs ! (n - m + k)"
      using True m by (intro nth_drop) (simp add: n_def)
    finally show ?thesis using 1 by (simp add: n_def m_def)
  next
    case False
    have "k + n - m = (k - m) + n" using False m by arith
    then have "(k + n - m) mod n = (k - m) mod n" by simp
    also have "\<dots> = k - m" using kn by simp
    finally have 1: "(k + n - m) mod n = k - m" .
    have "np_roll xs i ! k = take (n - m) xs ! (k - m)"
      unfolding roll using False len by (simp add: nth_append)
    also have "\<dots> = xs ! (k - m)"
      using False kn m by (intro nth_take) arith
    finally show ?thesis using 1 by (simp add: n_def m_def)
  qed
qed

lemma obs_matrix_roll: "obs_matrix s i = np_roll (obs_matrix s 0) i"
  by (simp add: obs_matrix_def)

lemma transpose_4_rows:
  assumes "length a = 7" "length b = 7" "length c = 7" "length d = 7" "j < 7"
  shows "length (transpose [a, b, c, d]) = 7"
    "transpose [a, b, c, d] ! j = [a ! j, b ! j, c ! j, d ! j]"
proof -
  have T: "transpose [a, b, c, d] = map (\<lambda>i. map (\<lambda>j. [a, b, c, d] ! j ! i) [0..<length [a, b, c, d]]) [0..<7]"
    using assms(1-4) by (intro transpose_rectangle) (auto simp: nth_Cons split: nat.splits)
  show "length (transpose [a, b, c, d]) = 7" by (simp add: T)
  have "[0..<4] = [0, 1, 2, 3::nat]" by (simp add: upt_rec)
  then show "transpose [a, b, c, d] ! j = [a ! j, b ! j, c ! j, d ! j]"
    using assms(5) by (simp add: T)
qed

text \<open>Row \<open>j\<close> of the unrotated matrix carries the entries of agent \<open>j\<close>.\<close>

lemma obs_matrix_0_row:
  assumes "eco_observation s = transpose [gdp s, one_plus_gdp_growth_rate s, price_lvl s, one_plus_inf_rate s]"
    "length (gdp s) = 7" "length (one_plus_gdp_growth_rate s) = 7" "length (price_lvl s) = 7"
    "length (one_plus_inf_rate s) = 7" "square 7 (affinity s)" "j < 7"
  shows "length (obs_matrix s 0) = 7"
    "obs_matrix s 0 ! j =
       [gdp s ! j, one_plus_gdp_growth_rate s ! j, price_lvl s ! j, one_plus_inf_rate s ! j] @ affinity s ! j"
proof -
  note T = transpose_4_rows [OF assms(2,3,4,5)]
  show "length (obs_matrix s 0) = 7"
    using T(1) assms(6,7) by (simp add: obs_matrix_def hstack_def assms(1) square_def)
  show "obs_matrix s 0 ! j =
       [gdp s ! j, one_plus_gdp_growth_rate s ! j, price_lvl s ! j, one_plus_inf_rate s ! j] @ affinity s ! j"
    using T(1) T(2) [OF assms(7)] assms(6,7) by (simp add: obs_matrix_def hstack_def assms(1) square_def)
qed

lemma obs_matrix_row:
  assumes "length (obs_matrix s 0) = 7" "i < 7" "k < 7"
  shows "obs_matrix s i ! k = obs_matrix s 0 ! ((k + 7 - i) mod 7)"
  using nth_np_roll [of k "obs_matrix s 0" i] assms
  by (simp add: obs_matrix_roll [of s i])

lemma enumerate_dict:
  assumes "distinct as" "i < length as"
  shows "map_of (map (\<lambda>(i, agent). (agent, f i)) (enumerate 0 as)) (as ! i) = Some (f i)"
proof -
  have "map (\<lambda>(i, agent). (agent, f i)) (enumerate 0 as) = zip as (map f [0..<length as])"
    by (rule nth_equalityI) (simp_all add: nth_enumerate_eq)
  then show ?thesis
    using assms map_of_zip_nth [of as "map f [0..<length as]" i] by simp
qed

lemma reset_eco:
  "length (one_plus_gdp_growth_rate (fst (reset e seed z))) = 7"
  "length (one_plus_inf_rate (fst (reset e seed z))) = 7"
  "eco_observation (fst (reset e seed z)) =
     transpose [gdp (fst (reset e seed z)), one_plus_gdp_growth_rate (fst (reset e seed z)),
                price_lvl (fst (reset e seed z)), one_plus_inf_rate (fst (reset e seed z))]"
  by (simp_all add: reset_def Let_def num_agents_def randn_def)

lemma reset_observations:
  "fst (snd (reset e seed z)) = build_observations (fst (reset e seed z))"
  "snd (snd (reset e seed z)) = const_dict possible_agents ()"
  by (simp_all add: reset_def Let_def)

subsection \<open>The concrete inputs\<close>

lemma state0_wf: "wf_env state0"
  unfolding state0_def by (rule reset_wf_env)

lemma state0_fields:
  "agents state0 = possible_agents" "t state0 = 0" "render_ok state0"
  "affinity state0 = eye 7"
  by (simp_all add: state0_def reset_state render_ok_def env0_def)

lemma valid_input0: "valid_input (acts0, pdraws0)"
  by (simp add: valid_input_def acts0_def pdraws0_def list_all_iff N_def)

lemma step0: "step state0 acts0 pdraws0 = Inr (fst result0, snd result0)"
proof -
  from step_returns [OF state0_wf state0_fields(1) state0_fields(3) valid_input0]
  obtain r where "step state0 acts0 pdraws0 = Inr r" by blast
  then show ?thesis by (simp add: result0_def)
qed

lemma run0: "run state0 [(acts0, pdraws0)] = Inr [result0]"
  using step0 by simp

text \<open>The diplomatic phase of the first call, evaluated.\<close>

lemma u7: "[0..<7] = [0, 1, 2, 3, 4, 5, 6::nat]" by (simp add: upt_rec)

lemma r14: "replicate 14 (0::real) = [0,0,0,0,0,0,0,0,0,0,0,0,0,0]"
  by (simp add: eval_nat_numeral)

lemma r7: "replicate 7 (0::real) = [0,0,0,0,0,0,0]"
  by (simp add: eval_nat_numeral)

lemma pol_agent0:
  "pol_agent 7 0 (replicate 14 0) (pdraws0 0) =
     Inr ([0,1,0,0,0,0,0], [False,True,True,True,True,True,True])"
  "pol_agent 7 (Suc 0) (replicate 14 0) (pdraws0 (Suc 0)) =
     Inr ([0,0,1,0,0,0,0], [True,False,True,True,True,True,True])"
  "pol_agent 7 (Suc (Suc 0)) (replicate 14 0) (pdraws0 (Suc (Suc 0))) =
     Inr ([0,0,0,1,0,0,0], [True,True,False,True,True,True,True])"
  "pol_agent 7 (Suc (Suc (Suc 0))) (replicate 14 0) (pdraws0 (Suc (Suc (Suc 0)))) =
     Inr ([0,0,0,0,1,0,0], [True,True,True,False,True,True,True])"
  "pol_agent 7 (Suc (Suc (Suc (Suc 0)))) (replicate 14 0) (pdraws0 (Suc (Suc (Suc (Suc 0))))) =
     Inr ([0,0,0,0,0,1,0], [True,True,True,True,False,True,True])"
  "pol_agent 7 (Suc (Suc (Suc (Suc (Suc 0))))) (replicate 14 0)
       (pdraws0 (Suc (Suc (Suc (Suc (Suc 0)))))) =
     Inr ([0,0,0,0,0,0,1], [True,True,True,True,True,False,True])"
  "pol_agent 7 (Suc (Suc (Suc (Suc (Suc (Suc 0)))))) (replicate 14 0)
       (pdraws0 (Suc (Suc (Suc (Suc (Suc (Suc 0))))))) =
     Inr ([1,0,0,0,0,0,0], [True,True,True,True,True,True,False])"
  by (simp_all add: pol_agent_def Let_def r14 r7 u7 softmax_def sigmoid_def random_choice_def
      one_hot_def less_bc_def pdraws0_def)

lemma pol_loop0:
  "pol_loop 7 0 (replicate 7 (replicate 14 0)) pdraws0 = Inr (invites0, accepts0)"
proof -
  have r: "replicate 7 (replicate 14 (0::real)) =
    [replicate 14 0, replicate 14 0, replicate 14 0, replicate 14 0, replicate 14 0,
     replicate 14 0, replicate 14 0]"
    by (simp add: eval_nat_numeral)
  show ?thesis
    unfolding r invites0_def accepts0_def
    by (simp only: pol_loop.simps pol_agent0 sum.case prod.case)
qed

lemma those0:
  "those (map acts0 possible_agents) = Some (replicate 7 \<lparr>eco = 0, pol = replicate 14 0\<rparr>)"
  by (simp add: possible_agents_eq acts0_def eval_nat_numeral)

lemma rows_ok0: "rows_ok 7 invites0 accepts0"
  using pol_loop_rows [OF pol_loop0] by (simp add: rows_ok_def)

lemma vstack0: "vstack invites0 = Inr invites0" "vstack accepts0 = Inr accepts0"
  using rows_ok0
  by (auto intro!: vstack_returns [of _ 7] simp: rows_ok_def row_ok_def list_all_length)

lemma result0_affinity:
  "affinity (fst result0) = mat_map2 (+) (eye 7) (delta_affinity_of invites0 accepts0)"
proof -
  let ?s1 = "eco_macro (eco_trade state0 (map eco (replicate 7 \<lparr>eco = 0, pol = replicate 14 0\<rparr>)))"
  let ?D = "delta_affinity_of invites0 accepts0"
  have g: "length (gdp state0) = 7" by (simp add: state0_def reset_state)
  have p: "pol_phase ?s1 (map pol (replicate 7 \<lparr>eco = 0, pol = replicate 14 0\<rparr>)) pdraws0 =
      Inr (?s1\<lparr>delta_affinity := ?D, affinity := mat_map2 (+) (affinity ?s1) ?D\<rparr>)"
    by (simp add: pol_phase_def num_agents_def state0_fields pol_loop0 vstack0 Let_def)
  have e: "eco_phase state0 (map eco (replicate 7 \<lparr>eco = 0, pol = replicate 14 0\<rparr>)) = Inr ?s1"
    by (simp add: eco_phase_eq g)
  have "step state0 acts0 pdraws0 =
      finish_step (?s1\<lparr>delta_affinity := ?D, affinity := mat_map2 (+) (affinity ?s1) ?D\<rparr>)"
    unfolding step_def by (simp only: state0_fields(1) those0 option.case e sum.case p)
  then have "finish_step (?s1\<lparr>delta_affinity := ?D, affinity := mat_map2 (+) (affinity ?s1) ?D\<rparr>)
      = Inr (fst result0, snd result0)"
    using step0 by simp
  from finish_step_Inr(2) [OF this] show ?thesis
    by (simp add: state0_fields)
qed

lemma result0_entry: "affinity state0 ! 0 ! 1 = 0" "affinity (fst result0) ! 0 ! 1 = 1 / 200"
proof -
  show "affinity state0 ! 0 ! 1 = 0" by (simp add: state0_fields nth_eye)
  have D: "square 7 (delta_affinity_of invites0 accepts0)"
    using rows_ok0 by (rule square_delta_affinity_of)
  have "affinity (fst result0) ! 0 ! 1 = eye 7 ! 0 ! 1 + delta_affinity_of invites0 accepts0 ! 0 ! 1"
    unfolding result0_affinity using square_eye D by (rule nth_mat_map2) simp_all
  also have "delta_affinity_of invites0 accepts0 ! 0 ! 1 =
      delta * 0.5 * (of_bool (accepts0 ! 1 ! 0) * invites0 ! 0 ! 1 + invites0 ! 1 ! 0 * of_bool (accepts0 ! 0 ! 1))"
    using rows_ok0 by (rule nth_delta_affinity_of) simp_all
  finally show "affinity (fst result0) ! 0 ! 1 = 1 / 200"
    by (simp add: nth_eye invites0_def accepts0_def delta_def)
qed

subsection \<open>Observations after reset and step\<close>

lemma reset_entries:
  assumes "j < 7"
  shows "gdp (fst (reset e seed z)) ! j = std_gdp * z_gdp z j"
    "one_plus_gdp_growth_rate (fst (reset e seed z)) ! j = std_gdp * z_gdp z j - std_pgdp * z_prev_gdp z j"
    "price_lvl (fst (reset e seed z)) ! j = std_pl * z_price_lvl z j"
    "one_plus_inf_rate (fst (reset e seed z)) ! j = std_pl * z_price_lvl z j - std_ppl * z_prev_price_lvl z j"
  using assms by (simp_all add: reset_def Let_def num_agents_def randn_def)

lemma reset_obs_matrix_0:
  assumes "j < 7"
  shows "length (obs_matrix (fst (reset e seed z)) 0) = 7"
    "obs_matrix (fst (reset e seed z)) 0 ! j =
       [std_gdp * z_gdp z j, std_gdp * z_gdp z j - std_pgdp * z_prev_gdp z j,
        std_pl * z_price_lvl z j, std_pl * z_price_lvl z j - std_ppl * z_prev_price_lvl z j]
       @ eye 7 ! j"
proof -
  let ?s = "fst (reset e seed z)"
  have sq: "square 7 (affinity ?s)" by (simp add: reset_state square_eye)
  note R = obs_matrix_0_row [OF reset_eco(3) reset_state(5) reset_eco(1) reset_state(6) reset_eco(2) sq assms]
  show "length (obs_matrix ?s 0) = 7" by (rule R(1))
  show "obs_matrix ?s 0 ! j =
       [std_gdp * z_gdp z j, std_gdp * z_gdp z j - std_pgdp * z_prev_gdp z j,
        std_pl * z_price_lvl z j, std_pl * z_price_lvl z j - std_ppl * z_prev_price_lvl z j]
       @ eye 7 ! j"
    using R(2) by (simp add: reset_entries [OF assms] reset_state)
qed

lemma reset_observation_of:
  assumes "i < 7"
  shows "fst (snd (reset e seed z)) (possible_agents ! i) =
           Some (concat (obs_matrix (fst (reset e seed z)) i))"
  using enumerate_dict [of possible_agents i "\<lambda>i. concat (obs_matrix (fst (reset e seed z)) i)"]
    assms distinct_possible_agents
  by (simp add: reset_observations build_observations_def reset_state)

lemma step_observation_of:
  assumes "step s actions draws = Inr (s', out)" "wf_env s" "i < 7"
  shows "observations out (possible_agents ! i) = Some (concat (obs_matrix s' i))"
proof -
  from step_result [OF assms(1,2)] obtain acts I A where p: "step_post s acts I A s' out"
    by blast
  show ?thesis
    using enumerate_dict [of possible_agents i "\<lambda>i. concat (obs_matrix s' i)"]
      assms(3) distinct_possible_agents
    by (simp add: step_post_out(1) [OF p])
qed

lemma step_obs_matrix_0:
  assumes "step s actions draws = Inr (s', out)" "wf_env s" "j < 7"
  shows "length (obs_matrix s' 0) = 7"
    "obs_matrix s' 0 ! j =
       [gdp s' ! j, one_plus_gdp_growth_rate s' ! j, price_lvl s' ! j, one_plus_inf_rate s' ! j]
       @ affinity s' ! j"
proof -
  note E = step_eco [OF assms(1,2)]
  have sq: "square 7 (affinity s')" using step_affinity_entries(4) [OF assms(1,2), of 0 0] by simp
  note R = obs_matrix_0_row [OF E(7) E(1) E(3) E(2) E(4) sq assms(3)]
  show "length (obs_matrix s' 0) = 7" by (rule R(1))
  show "obs_matrix s' 0 ! j =
       [gdp s' ! j, one_plus_gdp_growth_rate s' ! j, price_lvl s' ! j, one_plus_inf_rate s' ! j]
       @ affinity s' ! j" by (rule R(2))
qed


lemma eye_7_rows:
  "eye 7 ! 0 = [1, 0, 0, 0, 0, 0, 0]" "eye 7 ! Suc 0 = [0, 1, 0, 0, 0, 0, 0]"
  "eye 7 ! 6 = [0, 0, 0, 0, 0, 0, 1]"
  by code_simp+

lemma concat_nth_0: "M \<noteq> [] \<Longrightarrow> hd M \<noteq> [] \<Longrightarrow> concat M ! 0 = hd M ! 0"
  by (cases M) (simp_all add: nth_append)

lemma reset_first_entry:
  "fst (snd (reset e seed z)) (possible_agents ! 0) = Some v \<Longrightarrow> v ! 0 = std_gdp * z_gdp z 0"
proof -
  assume a: "fst (snd (reset e seed z)) (possible_agents ! 0) = Some v"
  let ?M = "obs_matrix (fst (reset e seed z)) 0"
  have v: "v = concat ?M" using a reset_observation_of [of 0 e seed z] by simp
  have l: "length ?M = 7" by (rule reset_obs_matrix_0(1) [of 0]) simp
  then have ne: "?M \<noteq> []" by auto
  have h: "hd ?M = ?M ! 0" using ne by (simp add: hd_conv_nth)
  have "v ! 0 = hd ?M ! 0" unfolding v using ne
    by (intro concat_nth_0) (simp_all add: h reset_obs_matrix_0(2))
  then show ?thesis by (simp add: h reset_obs_matrix_0(2))
qed

subsection \<open>What step reads\<close>

text \<open>\<open>step\<close> reads seven attributes of the state and overwrites all the others.\<close>

lemma eco_reads:
  assumes "render_mode s1 = render_mode s2" "agents s1 = agents s2" "t s1 = t s2"
    "gdp s1 = gdp s2" "price_lvl s1 = price_lvl s2" "NET_EX s1 = NET_EX s2"
    "affinity s1 = affinity s2"
  shows "(eco_macro (eco_trade s1 ea))\<lparr>delta_affinity := D\<rparr> =
         (eco_macro (eco_trade s2 ea))\<lparr>delta_affinity := D\<rparr>"
  by (rule env.equality) (simp_all add: eco_macro_def eco_trade_def Let_def assms)

lemma pol_reads:
  assumes "\<And>D. u1\<lparr>delta_affinity := D\<rparr> = u2\<lparr>delta_affinity := D\<rparr>"
    "agents u1 = agents u2" "affinity u1 = affinity u2"
  shows "pol_phase u1 pa d = pol_phase u2 pa d"
proof -
  have "u1\<lparr>delta_affinity := D, affinity := X\<rparr> = u2\<lparr>delta_affinity := D, affinity := X\<rparr>" for D X
    using arg_cong [OF assms(1) [of D], of "\<lambda>u. u\<lparr>affinity := X\<rparr>"] by simp
  then show ?thesis
    by (simp add: pol_phase_def Let_def num_agents_def assms(2,3)
        split: sum.splits prod.splits)
qed

lemma step_reads:
  assumes "render_mode s1 = render_mode s2" "agents s1 = agents s2" "t s1 = t s2"
    "gdp s1 = gdp s2" "price_lvl s1 = price_lvl s2" "NET_EX s1 = NET_EX s2"
    "affinity s1 = affinity s2"
  shows "step s1 a d = step s2 a d"
proof -
  have "pol_phase (eco_macro (eco_trade s1 ea)) pa d = pol_phase (eco_macro (eco_trade s2 ea)) pa d"
    for ea pa
    by (rule pol_reads) (simp_all add: eco_reads [OF assms] assms)
  then show ?thesis
    by (simp add: step_def eco_phase_eq assms split: option.splits)
qed

lemma reset_reads:
  assumes "render_mode e1 = render_mode e2"
  shows "render_mode (fst (reset e1 seed1 z)) = render_mode (fst (reset e2 seed2 z))"
    "agents (fst (reset e1 seed1 z)) = agents (fst (reset e2 seed2 z))"
    "t (fst (reset e1 seed1 z)) = t (fst (reset e2 seed2 z))"
    "gdp (fst (reset e1 seed1 z)) = gdp (fst (reset e2 seed2 z))"
    "price_lvl (fst (reset e1 seed1 z)) = price_lvl (fst (reset e2 seed2 z))"
    "NET_EX (fst (reset e1 seed1 z)) = NET_EX (fst (reset e2 seed2 z))"
    "affinity (fst (reset e1 seed1 z)) = affinity (fst (reset e2 seed2 z))"
    "eco_observation (fst (reset e1 seed1 z)) = eco_observation (fst (reset e2 seed2 z))"
  using assms by (simp_all add: reset_def Let_def num_agents_def)

lemma run_reads:
  assumes "render_mode s1 = render_mode s2" "agents s1 = agents s2" "t s1 = t s2"
    "gdp s1 = gdp s2" "price_lvl s1 = price_lvl s2" "NET_EX s1 = NET_EX s2"
    "affinity s1 = affinity s2"
  shows "run s1 xs = run s2 xs"
proof (cases xs)
  case Nil
  then show ?thesis by simp
next
  case (Cons x ys)
  then show ?thesis by (simp add: step_reads [OF assms])
qed

lemma reset_outputs:
  assumes "render_mode e1 = render_mode e2"
  shows "snd (reset e1 seed1 z) = snd (reset e2 seed2 z)"
proof -
  note R = reset_reads [OF assms, of seed1 z seed2]
  have "build_observations (fst (reset e1 seed1 z)) = build_observations (fst (reset e2 seed2 z))"
    by (simp add: build_observations_def obs_matrix_def R)
  then show ?thesis
    by (simp add: prod_eq_iff reset_observations)
qed

subsection \<open>Rounded arithmetic\<close>

lemma pow2_pos [simp]: "0 < pow2 k"
  by (simp add: pow2_def)

lemma pow2_add: "pow2 (a + b) = pow2 a * pow2 b"
  by (simp add: pow2_def powr_add)

lemma pow2_0 [simp]: "pow2 0 = 1"
  by (simp add: pow2_def)

lemma pow2_mono: "a \<le> b \<Longrightarrow> pow2 a \<le> pow2 b"
  by (simp add: pow2_def)

lemma pow2_strict_mono: "a < b \<Longrightarrow> pow2 a < pow2 b"
  by (simp add: pow2_def)

lemma pow2_nat: "0 \<le> k \<Longrightarrow> pow2 k = of_int (2 ^ nat k)"
  by (simp add: pow2_def powr_real_of_int)

lemma pow2_neg: "pow2 (- k) = 1 / pow2 k"
  by (simp add: pow2_def powr_minus_divide)

lemma round_even_cases: "round_even x = \<lfloor>x\<rfloor> \<or> round_even x = \<lfloor>x\<rfloor> + 1"
  by (simp add: round_even_def Let_def)

lemma round_even_of_int [simp]: "round_even (of_int n) = n"
  by (simp add: round_even_def Let_def)

lemma round_even_le: "x \<le> of_int n \<Longrightarrow> round_even x \<le> n"
proof (cases "x = of_int n")
  case True
  then show ?thesis by simp
next
  case False
  assume "x \<le> of_int n"
  with False have "x < of_int n" by simp
  then have "\<lfloor>x\<rfloor> < n" by (simp add: floor_less_iff)
  then show ?thesis using round_even_cases [of x] by auto
qed

lemma round_even_ge: "of_int n \<le> x \<Longrightarrow> n \<le> round_even x"
proof -
  assume "of_int n \<le> x"
  then have "n \<le> \<lfloor>x\<rfloor>" by (simp add: le_floor_iff)
  then show ?thesis using round_even_cases [of x] by auto
qed

lemma round_even_near: "of_int n \<le> x \<Longrightarrow> x < of_int n + 1 / 2 \<Longrightarrow> round_even x = n"
proof -
  assume a: "of_int n \<le> x" "x < of_int n + 1 / 2"
  then have f: "\<lfloor>x\<rfloor> = n" by (simp add: floor_eq_iff)
  show ?thesis using a by (simp add: round_even_def Let_def f)
qed

lemma floor_log_bounds:
  assumes "0 < x"
  shows "pow2 \<lfloor>log 2 x\<rfloor> \<le> x" "x < pow2 (\<lfloor>log 2 x\<rfloor> + 1)"
  using floor_log_eq_powr_iff [of x 2 "\<lfloor>log 2 x\<rfloor>"] assms
  by (simp_all add: pow2_def)

lemma floor_log_le:
  assumes "0 < x" "x < pow2 (k + 1)"
  shows "\<lfloor>log 2 x\<rfloor> \<le> k"
proof (rule ccontr)
  assume "\<not> \<lfloor>log 2 x\<rfloor> \<le> k"
  then have "k + 1 \<le> \<lfloor>log 2 x\<rfloor>" by simp
  then have "pow2 (k + 1) \<le> pow2 \<lfloor>log 2 x\<rfloor>" by (rule pow2_mono)
  with floor_log_bounds(1) [OF assms(1)] assms(2) show False by simp
qed

lemma floor_log_ge:
  assumes "0 < x" "pow2 k \<le> x"
  shows "k \<le> \<lfloor>log 2 x\<rfloor>"
proof (rule ccontr)
  assume "\<not> k \<le> \<lfloor>log 2 x\<rfloor>"
  then have "\<lfloor>log 2 x\<rfloor> + 1 \<le> k" by simp
  then have "pow2 (\<lfloor>log 2 x\<rfloor> + 1) \<le> pow2 k" by (rule pow2_mono)
  with floor_log_bounds(2) [OF assms(1)] assms(2) show False by simp
qed

lemma ulp_pos [simp]: "0 < ulp d x"
  by (simp add: ulp_def)

lemma ulp_nonneg [simp]: "0 \<le> ulp d x"
  using ulp_pos [of d x] by (rule less_imp_le)

lemma pow2_split: "pow2 a = pow2 (a - b) * pow2 b"
proof -
  have "pow2 a = pow2 ((a - b) + b)" by simp
  then show ?thesis by (simp only: pow2_add)
qed

lemma fl_nonneg: "0 \<le> x \<Longrightarrow> 0 \<le> fl d x"
proof (cases "x = 0")
  case True
  then show ?thesis by (simp add: fl_def)
next
  case False
  assume "0 \<le> x"
  then have "of_int 0 \<le> x / ulp d x" by simp
  then have "0 \<le> round_even (x / ulp d x)" by (rule round_even_ge)
  then show ?thesis using False by (simp add: fl_def)
qed

lemma fl_upper:
  assumes "0 < x" "x \<le> of_int m * pow2 (k - prec d + 1)" "binade d x \<le> k"
  shows "fl d x \<le> of_int m * pow2 (k - prec d + 1)"
proof -
  let ?e = "binade d x"
  let ?u = "ulp d x"
  have split: "pow2 (k - prec d + 1) = pow2 (k - ?e) * ?u"
    using pow2_split [of "k - prec d + 1" "?e - prec d + 1"] by (simp add: ulp_def)
  have int: "pow2 (k - ?e) = of_int (2 ^ nat (k - ?e))"
    using assms(3) by (intro pow2_nat) simp
  have "x / ?u \<le> of_int m * pow2 (k - ?e)"
    using assms(2) unfolding split by (simp add: pos_divide_le_eq mult.assoc)
  then have "x / ?u \<le> of_int (m * 2 ^ nat (k - ?e))"
    unfolding int by simp
  then have "round_even (x / ?u) \<le> m * 2 ^ nat (k - ?e)" by (rule round_even_le)
  then have "of_int (round_even (x / ?u)) \<le> (of_int (m * 2 ^ nat (k - ?e)) :: real)"
    by (simp only: of_int_le_iff)
  then have "of_int (round_even (x / ?u)) * ?u \<le> of_int (m * 2 ^ nat (k - ?e)) * ?u"
    by (intro mult_right_mono) simp_all
  also have "\<dots> = of_int m * pow2 (k - prec d + 1)"
    unfolding split int by simp
  finally show ?thesis using assms(1) by (simp add: fl_def)
qed

lemma fl_ge_pow2:
  assumes "0 < x" "emin d \<le> \<lfloor>log 2 x\<rfloor>" "0 < prec d"
  shows "pow2 \<lfloor>log 2 x\<rfloor> \<le> fl d x"
proof -
  let ?l = "\<lfloor>log 2 x\<rfloor>"
  have e: "binade d x = ?l" using assms(1,2) by (simp add: binade_def)
  let ?u = "ulp d x"
  have u: "?u = pow2 (?l - prec d + 1)" by (simp add: ulp_def e)
  have split: "pow2 ?l = pow2 (prec d - 1) * ?u"
    using pow2_split [of ?l "?l - prec d + 1"] by (simp add: u)
  have int: "pow2 (prec d - 1) = of_int (2 ^ nat (prec d - 1))"
    using assms(3) by (intro pow2_nat) simp
  have "pow2 ?l \<le> x" using assms(1) by (rule floor_log_bounds)
  then have "pow2 (prec d - 1) \<le> x / ?u"
    unfolding split by (simp add: pos_le_divide_eq)
  then have "of_int (2 ^ nat (prec d - 1)) \<le> x / ?u" unfolding int .
  then have "2 ^ nat (prec d - 1) \<le> round_even (x / ?u)" by (rule round_even_ge)
  then have "(of_int (2 ^ nat (prec d - 1)) :: real) \<le> of_int (round_even (x / ?u))"
    by (simp only: of_int_le_iff)
  then have "of_int (2 ^ nat (prec d - 1)) * ?u \<le> of_int (round_even (x / ?u)) * ?u"
    by (intro mult_right_mono) simp_all
  then show ?thesis
    using assms(1) unfolding split int by (simp add: fl_def)
qed

lemma prec_pos [simp]: "0 < prec d"
  by (cases d) simp_all

lemma emin_le [simp]: "emin d \<le> - 3"
  by (cases d) simp_all

lemma fl_ge_1:
  assumes "1 \<le> x"
  shows "1 \<le> fl d x"
proof -
  have x: "0 < x" using assms by simp
  have "pow2 0 \<le> x" using assms by simp
  then have l: "0 \<le> \<lfloor>log 2 x\<rfloor>" using x by (intro floor_log_ge)
  have "emin d \<le> - 3" by simp
  then have "emin d \<le> \<lfloor>log 2 x\<rfloor>" using l by linarith
  then have "pow2 \<lfloor>log 2 x\<rfloor> \<le> fl d x" using x by (intro fl_ge_pow2) simp_all
  moreover have "pow2 0 \<le> pow2 \<lfloor>log 2 x\<rfloor>" using l by (rule pow2_mono)
  ultimately show ?thesis by simp
qed

lemma pow2_neg_numeral: "pow2 (- numeral n) = 1 / 2 ^ numeral n"
  by (simp add: pow2_def powr_neg_numeral)

lemma floor_log_02: "\<lfloor>log 2 (1 / 5 :: real)\<rfloor> = - 3"
proof -
  have "2 powr real_of_int (- 3) \<le> (1 / 5 :: real) \<and> (1 / 5 :: real) < 2 powr real_of_int (- 3 + 1)"
    by (simp add: powr_neg_numeral)
  then show ?thesis
    using floor_log_eq_powr_iff [of "1 / 5 :: real" 2 "- 3"] by simp
qed

lemma binade_02: "binade d (1 / 5) = - 3"
  using emin_le [of d] by (simp add: binade_def floor_log_02)

lemma ulp_02: "ulp Float64 (1 / 5) = 1 / 2 ^ 55" "ulp Float32 (1 / 5) = 1 / 2 ^ 26"
  by (simp_all add: ulp_def binade_02 pow2_neg_numeral)

lemma round_even_02:
  "round_even (36028797018963968 / 5) = 7205759403792794"
  "round_even (67108864 / 5) = 13421773"
  by (simp_all add: round_even_def Let_def)

lemma fl_02_Float64: "fl Float64 (1 / 5) = 3602879701896397 / 18014398509481984"
proof -
  have "(1 / 5 :: real) / ulp Float64 (1 / 5) = 36028797018963968 / 5"
    by (simp add: ulp_02)
  then have "fl Float64 (1 / 5) = of_int 7205759403792794 * (1 / 2 ^ 55)"
    by (simp only: fl_def round_even_02 ulp_02) simp
  then show ?thesis by simp
qed

lemma fl_02_Float32: "fl Float32 (1 / 5) = 13421773 / 67108864"
proof -
  have "(1 / 5 :: real) / ulp Float32 (1 / 5) = 67108864 / 5"
    by (simp add: ulp_02)
  then have "fl Float32 (1 / 5) = of_int 13421773 * (1 / 2 ^ 26)"
    by (simp only: fl_def round_even_02 ulp_02) simp
  then show ?thesis by simp
qed

lemma fl_02_bounds: "1 / 8 \<le> fl d (1 / 5)" "fl d (1 / 5) < 1 / 4"
  by (cases d; simp add: fl_02_Float64 fl_02_Float32)+

lemma fl_02_grid:
  "fl d (1 / 5) = of_int (round_even (1 / 5 / ulp d (1 / 5))) * pow2 (- 3 - prec d + 1)"
  by (simp add: fl_def ulp_def binade_02)

lemma fl_fl_02_Float64: "fl Float64 (fl Float64 (1 / 5)) = fl Float64 (1 / 5)"
proof -
  let ?c = "3602879701896397 / 18014398509481984 :: real"
  have "2 powr real_of_int (- 3) \<le> ?c \<and> ?c < 2 powr real_of_int (- 3 + 1)"
    by (simp add: powr_neg_numeral)
  then have "\<lfloor>log 2 ?c\<rfloor> = - 3"
    using floor_log_eq_powr_iff [of ?c 2 "- 3"] by simp
  then have u: "ulp Float64 ?c = 1 / 2 ^ 55"
    by (simp add: ulp_def binade_def pow2_neg_numeral)
  have "?c / ulp Float64 ?c = of_int 7205759403792794" by (simp add: u)
  then have "round_even (?c / ulp Float64 ?c) = 7205759403792794"
    by (simp only: round_even_of_int)
  then have "fl Float64 ?c = ?c" by (simp add: fl_def u)
  then show ?thesis by (simp only: fl_02_Float64)
qed

lemma fl_Float32_double_02: "fl Float32 (fl Float64 (1 / 5)) = fl Float32 (1 / 5)"
proof -
  let ?c = "3602879701896397 / 18014398509481984 :: real"
  have "2 powr real_of_int (- 3) \<le> ?c \<and> ?c < 2 powr real_of_int (- 3 + 1)"
    by (simp add: powr_neg_numeral)
  then have "\<lfloor>log 2 ?c\<rfloor> = - 3"
    using floor_log_eq_powr_iff [of ?c 2 "- 3"] by simp
  then have u: "ulp Float32 ?c = 1 / 2 ^ 26"
    by (simp add: ulp_def binade_def pow2_neg_numeral)
  have x: "?c / ulp Float32 ?c = 3602879701896397 / 268435456" by (simp add: u)
  have "round_even (3602879701896397 / 268435456) = 13421773"
    by (simp add: round_even_def Let_def)
  then have "fl Float32 ?c = of_int 13421773 * (1 / 2 ^ 26)"
    by (simp only: fl_def x u) simp
  then show ?thesis by (simp add: fl_02_Float64 fl_02_Float32)
qed

lemma fl_cast_02: "fl d (fl Float64 (1 / 5)) = fl d (1 / 5)"
  by (cases d) (simp_all add: fl_Float32_double_02 fl_fl_02_Float64)

lemma fl_le_fl_02:
  assumes "0 < q" "q \<le> fl d (1 / 5)"
  shows "fl d q \<le> fl d (1 / 5)"
proof -
  have "q < 1 / 4" using assms(2) fl_02_bounds(2) [of d] by simp
  then have "q < pow2 (- 3 + 1)" by (simp add: pow2_neg_numeral)
  then have "\<lfloor>log 2 q\<rfloor> \<le> - 3" using assms(1) by (intro floor_log_le)
  then have b: "binade d q \<le> - 3"
    using emin_le [of d] assms(1) by (simp add: binade_def)
  show ?thesis
    unfolding fl_02_grid [of d]
    using assms(1) assms(2) [unfolded fl_02_grid [of d]] b by (rule fl_upper)
qed

lemma interest_rate_fl_bounds:
  "0 \<le> interest_rate_fl d a \<and> interest_rate_fl d a \<le> fl d 0.20"
proof -
  let ?c = "fl d (1 / 5)"
  let ?e = "fl d (exp (- a))"
  have c: "0 < ?c" using fl_02_bounds(1) [of d] by simp
  have e: "0 \<le> ?e" by (intro fl_nonneg) simp
  have dd: "1 \<le> fl d (1 + ?e)" using e by (intro fl_ge_1) simp
  let ?q = "?c / fl d (1 + ?e)"
  have q0: "0 < ?q" using c dd by simp
  have "?q \<le> ?c / 1" using c dd by (intro divide_left_mono) simp_all
  then have q1: "?q \<le> ?c" by simp
  have "0 \<le> fl d ?q" using q0 by (intro fl_nonneg) simp
  moreover have "fl d ?q \<le> ?c" using q0 q1 by (rule fl_le_fl_02)
  ultimately show ?thesis
    using c by (simp add: interest_rate_fl_def Let_def fl_cast_02)
qed

text \<open>The value at the action 100 in float64.\<close>

lemma exp_minus_100: "exp (- 100 :: real) \<le> pow2 (- 100)"
proof -
  have "(2::real) \<le> exp 1" using exp_ge_add_one_self [of "1::real"] by simp
  then have "(2::real) ^ 100 \<le> exp 1 ^ 100" by (intro power_mono) simp_all
  also have "exp (1::real) ^ 100 = exp 100"
    using exp_of_nat_mult [of 100 "1::real"] by simp
  finally have "(2::real) ^ 100 \<le> exp 100" .
  then have c: "1 / exp (100::real) \<le> 1 / 2 ^ 100"
    by (intro divide_left_mono) simp_all
  have a: "exp (- 100 :: real) = 1 / exp 100"
    by (simp only: exp_minus inverse_eq_divide)
  have b: "pow2 (- 100) = 1 / 2 ^ 100" by (rule pow2_neg_numeral)
  show ?thesis unfolding a b by (rule c)
qed

lemma fl_exp_minus_100:
  "0 \<le> fl Float64 (exp (- 100))" "fl Float64 (exp (- 100)) \<le> pow2 (- 100)"
proof -
  show "0 \<le> fl Float64 (exp (- 100))" by (intro fl_nonneg) simp
  have x: "0 < exp (- 100 :: real)" by simp
  have "exp (- 100 :: real) < pow2 (- 100 + 1)"
    using exp_minus_100 pow2_strict_mono [of "- 100" "- 100 + 1"] by simp
  then have "\<lfloor>log 2 (exp (- 100 :: real))\<rfloor> \<le> - 100" using x by (intro floor_log_le)
  then have b: "binade Float64 (exp (- 100)) \<le> - 100" by (simp add: binade_def)
  have g: "pow2 (- 100) = of_int (2 ^ 52) * pow2 (- 100 - prec Float64 + 1)"
    using pow2_split [of "- 100" "- 152"] by (simp add: pow2_nat)
  show "fl Float64 (exp (- 100)) \<le> pow2 (- 100)"
    unfolding g using x exp_minus_100 [unfolded g] b by (rule fl_upper)
qed

lemma fl_one_plus_tiny:
  assumes "0 \<le> y" "y \<le> pow2 (- 100)"
  shows "fl Float64 (1 + y) = 1"
proof -
  have t: "pow2 (- 100) < 1 / 2 ^ 54" by (simp add: pow2_neg_numeral)
  have lo: "pow2 0 \<le> 1 + y" using assms(1) by simp
  have "1 + y < 2" using assms(2) t by simp
  then have hi: "1 + y < pow2 (0 + 1)" by (simp add: pow2_def)
  have p: "0 < 1 + y" using assms(1) by simp
  have "\<lfloor>log 2 (1 + y)\<rfloor> = 0"
    by (rule antisym [OF floor_log_le [OF p hi] floor_log_ge [OF p lo]])
  then have b: "binade Float64 (1 + y) = 0" using p by (simp add: binade_def)
  have u: "ulp Float64 (1 + y) = 1 / 2 ^ 52" by (simp add: ulp_def b pow2_neg_numeral)
  have "y * 2 ^ 52 < 1 / 2" using assms(2) t by simp
  then have "round_even ((1 + y) / ulp Float64 (1 + y)) = 2 ^ 52"
    unfolding u using assms(1) by (intro round_even_near) (simp_all add: algebra_simps)
  then show ?thesis using p by (simp add: fl_def u)
qed

lemma max_float_ge_1: "1 \<le> max_float Float64"
proof -
  have "pow2 (1 - prec Float64) \<le> pow2 0" by (intro pow2_mono) simp
  then have a: "1 \<le> 2 - pow2 (1 - prec Float64)" by simp
  have "pow2 0 \<le> pow2 (emax Float64)" by (intro pow2_mono) simp
  then have b: "1 \<le> pow2 (emax Float64)" by simp
  have "1 * 1 \<le> (2 - pow2 (1 - prec Float64)) * pow2 (emax Float64)"
    using a b by (intro mult_mono) simp_all
  then show ?thesis by (simp add: max_float_def)
qed

lemma interest_rate_fl_100: "interest_rate_fl Float64 100 = fl Float64 0.20"
proof -
  let ?e = "fl Float64 (exp (- 100))"
  have "pow2 (- 100) \<le> pow2 0" by (intro pow2_mono) simp
  then have "?e \<le> 1" using fl_exp_minus_100(2) by simp
  then have no: "\<not> max_float Float64 < ?e" using max_float_ge_1 by simp
  have one: "fl Float64 (1 + ?e) = 1"
    using fl_exp_minus_100 by (rule fl_one_plus_tiny)
  show ?thesis
    using no by (simp add: interest_rate_fl_def Let_def one fl_cast_02)
qed

section \<open>The claims\<close>

subsection \<open>The interest-rate proxy\<close>

text \<open>In exact real arithmetic the proxy is below 0.20 for every action.\<close>

lemma interest_rate_exact: "0 \<le> interest_rate a \<and> interest_rate a < 0.20"
proof -
  have pos: "0 < 1 + exp (- a)"
    using exp_gt_zero [of "- a"] by linarith
  have "0.20 < 0.20 * (1 + exp (- a))"
    using exp_gt_zero [of "- a"] by simp
  then have "0.20 / (1 + exp (- a)) < 0.20"
    using pos by (simp only: pos_divide_less_eq)
  moreover have "0 \<le> 0.20 / (1 + exp (- a))"
    using pos by simp
  ultimately show ?thesis unfolding interest_rate_def by simp
qed

text \<open>
  Claim C2, as the specification states it: the computed proxy is below 0.20 for every action,
  however large. In float64 at the action 100, \<open>exp (- 100)\<close> is so small that \<open>1 + exp (- 100)\<close>
  rounds to 1, and the computed proxy is the float 0.20 itself
  (\<open>3602879701896397 / 2\<^sup>5\<^sup>4\<close>), which is not below 0.20.
\<close>

theorem interest_rate_saturates:
  "interest_rate_fl Float64 100 = fl Float64 0.20 \<and>
   interest_rate_fl Float64 100 = 3602879701896397 / 18014398509481984 \<and>
   \<not> interest_rate_fl Float64 100 < 0.20"
  by (simp add: interest_rate_fl_100 fl_02_Float64)

text \<open>
  Claim C2, amended. For every real economic action \<open>a\<close>, however large in either direction,
  and in float32 as in float64, the computed interest-rate proxy lies in the closed interval
  from 0 to the float nearest 0.20 (\<open>3602879701896397 / 2\<^sup>5\<^sup>4\<close> in float64,
  \<open>13421773 / 2\<^sup>2\<^sup>6\<close> in float32).
\<close>

theorem interest_rate_fl_in_range:
  "0 \<le> interest_rate_fl d a \<and> interest_rate_fl d a \<le> fl d 0.20 \<and>
   fl Float64 0.20 = 3602879701896397 / 18014398509481984 \<and>
   fl Float32 0.20 = 13421773 / 67108864"
  using interest_rate_fl_bounds [of d a] by (simp add: fl_02_Float64 fl_02_Float32)

subsection \<open>The two export totals\<close>

text \<open>
  Claim C3. In every call of \<open>step\<close>, the export totals from the column-normalised
  trade coefficients (\<^verbatim>\<open>TEMP.T @ FOR_EXP\<close>) and from the row-normalised ones
  (\<^verbatim>\<open>TEMP_STAR @ FOR_EXP\<close>) are equal, so the assertion that compares them does not fail.
\<close>

theorem exports_agree:
  "EX' (eco_trade s eco_actions) = EX_STAR (eco_trade s eco_actions) \<and>
   eco_phase s eco_actions \<noteq> Inl AssertionError"
  by (simp add: EX_eq_EX_STAR eco_phase_eq)

subsection \<open>Rewards\<close>

text \<open>
  Claim C1. In every call of \<open>step\<close> that returns, the reward returned for agent \<open>i\<close> is the sum
  over \<open>j\<close> of \<open>affinity[i, j]\<close> times the economic reward of agent \<open>j\<close>, where the affinity is
  the matrix after the diplomatic phase of this call (the old entry plus this call's delta)
  and the economic reward is the one this call computed from its growth rate and inflation.
\<close>

theorem reward_is_affinity_weighted:
  assumes "step s actions draws = Inr (s', out)" "wf_env s" "i < N"
  shows "rewards out (possible_agents ! i) = Some (\<Sum>j<N. affinity s' ! i ! j * eco_reward s' ! j) \<and>
         (\<forall>j<N. affinity s' ! i ! j = affinity s ! i ! j + delta_affinity s' ! i ! j \<and>
                 eco_reward s' ! j =
                   eco_reward_of (one_plus_gdp_growth_rate s' ! j) (one_plus_inf_rate s' ! j))"
proof (intro conjI allI impI)
  have i: "i < 7" using assms(3) by (simp add: N_def)
  show "rewards out (possible_agents ! i) = Some (\<Sum>j<N. affinity s' ! i ! j * eco_reward s' ! j)"
    using step_rewards [OF assms(1,2) i] by (simp add: N_def)
  fix j assume "j < N"
  then have j: "j < 7" by (simp add: N_def)
  show "affinity s' ! i ! j = affinity s ! i ! j + delta_affinity s' ! i ! j"
    using assms(1,2) i j by (rule step_affinity_entries(1))
  note E = step_eco [OF assms(1,2)]
  show "eco_reward s' ! j =
          eco_reward_of (one_plus_gdp_growth_rate s' ! j) (one_plus_inf_rate s' ! j)"
    using E(3,4) j by (simp add: E(6))
qed

theorem reward_is_affinity_weighted_witness:
  "rewards (snd result0) (possible_agents ! 3) =
     Some (\<Sum>j<N. affinity (fst result0) ! 3 ! j * eco_reward (fst result0) ! j)"
  using reward_is_affinity_weighted [OF step0 state0_wf, of 3] by (simp add: N_def)

text \<open>
  Claim C5, as the specification states it: the economic reward of agent \<open>i\<close> is
  \<open>(exp growth - 1) - kappa * (exp inflation - target)\<^sup>2\<close>. Line 228 of the source subtracts 1
  from \<open>exp inflation\<close> as well: at growth 0 and inflation 0 it yields \<open>- 0.04\<close>, the stated
  formula \<open>- 96.04\<close>.
\<close>

theorem eco_reward_counterexample:
  "eco_reward_of 0 0 = - (4 / 100) \<and>
   (exp 0 - 1) - kappa * (exp 0 - inf_target)\<^sup>2 = - (9604 / 100 :: real) \<and>
   eco_reward_of 0 0 \<noteq> (exp 0 - 1) - kappa * (exp 0 - inf_target)\<^sup>2"
  by (simp add: eco_reward_of_def kappa_def inf_target_def power2_eq_square)

text \<open>
  Claim C5, amended. In every call of \<open>step\<close> that returns, the economic reward of agent \<open>i\<close> is
  \<open>(exp growth\<^sub>i - 1) - kappa * ((exp inflation\<^sub>i - 1) - target)\<^sup>2\<close>, on the growth rate and the
  inflation that this call stores, with the constants \<open>kappa = 100\<close> and \<open>target = 0.02\<close> of the
  constructor.
\<close>

theorem eco_reward_formula:
  assumes "step s actions draws = Inr (s', out)" "wf_env s" "i < N"
  shows "eco_reward s' ! i =
           (exp (one_plus_gdp_growth_rate s' ! i) - 1)
           - kappa * (exp (one_plus_inf_rate s' ! i) - 1 - inf_target)\<^sup>2 \<and>
         kappa = 100 \<and> inf_target = 0.02"
proof -
  have i: "i < 7" using assms(3) by (simp add: N_def)
  note E = step_eco [OF assms(1,2)]
  have "eco_reward s' ! i =
          eco_reward_of (one_plus_gdp_growth_rate s' ! i) (one_plus_inf_rate s' ! i)"
    using E(3,4) i by (simp add: E(6))
  then show ?thesis by (simp add: eco_reward_of_def kappa_def inf_target_def)
qed

theorem eco_reward_formula_witness:
  "eco_reward (fst result0) ! 2 =
     (exp (one_plus_gdp_growth_rate (fst result0) ! 2) - 1)
     - kappa * (exp (one_plus_inf_rate (fst result0) ! 2) - 1 - inf_target)\<^sup>2"
  using eco_reward_formula [OF step0 state0_wf, of 2] by (simp add: N_def)

subsection \<open>The affinity matrix\<close>

text \<open>
  Claim C8. In every call of \<open>step\<close> that returns and for every pair \<open>(i, j)\<close>, the affinity after
  the call is at least the affinity before it: the delta of the call is non-negative at every
  entry, and the new affinity is the old one plus the delta.
\<close>

theorem affinity_never_decreases:
  assumes "step s actions draws = Inr (s', out)" "wf_env s" "i < N" "j < N"
  shows "affinity s ! i ! j \<le> affinity s' ! i ! j \<and> 0 \<le> delta_affinity s' ! i ! j \<and>
         affinity s' ! i ! j = affinity s ! i ! j + delta_affinity s' ! i ! j"
proof -
  have ij: "i < 7" "j < 7" using assms(3,4) by (simp_all add: N_def)
  note A = step_affinity_entries [OF assms(1,2) ij]
  show ?thesis using A(1,2) by simp
qed

theorem affinity_never_decreases_witness:
  "affinity state0 ! 0 ! 1 \<le> affinity (fst result0) ! 0 ! 1 \<and>
   0 \<le> delta_affinity (fst result0) ! 0 ! 1 \<and>
   affinity state0 ! 0 ! 1 = 0 \<and> affinity (fst result0) ! 0 ! 1 = 1 / 200"
  using affinity_never_decreases [OF step0 state0_wf, of 0 1] result0_entry
  by (simp add: N_def)

text \<open>
  Claim C10. Every diagonal entry of the affinity is 1 at all times: it is 1 after \<open>reset\<close>, and
  after each call of \<open>step\<close> of an episode the diagonal of the delta is 0 and the diagonal
  of the affinity is still 1.
\<close>

theorem affinity_diagonal_is_one:
  assumes "i < N"
  shows "affinity (fst (reset e seed z)) ! i ! i = 1 \<and>
         (\<forall>xs rs k. run (fst (reset e seed z)) xs = Inr rs \<and> k < length rs \<longrightarrow>
            delta_affinity (fst (rs ! k)) ! i ! i = 0 \<and> affinity (fst (rs ! k)) ! i ! i = 1)"
proof -
  have i: "i < 7" using assms by (simp add: N_def)
  have 1: "affinity (fst (reset e seed z)) ! i ! i = 1"
    using i by (simp add: reset_state nth_eye)
  have "delta_affinity (fst (rs ! k)) ! i ! i = 0 \<and> affinity (fst (rs ! k)) ! i ! i = 1"
    if "run (fst (reset e seed z)) xs = Inr rs" "k < length rs" for xs rs k
    using run_diagonal [OF that(1) reset_wf_env that(2) i] 1 by simp
  with 1 show ?thesis by blast
qed

theorem affinity_diagonal_is_one_witness:
  "affinity state0 ! 4 ! 4 = 1 \<and> affinity (fst result0) ! 4 ! 4 = 1 \<and>
   delta_affinity (fst result0) ! 4 ! 4 = 0"
proof -
  have r: "run (fst (reset env0 None z0)) [(acts0, pdraws0)] = Inr [result0]"
    using run0 by (simp add: state0_def)
  have four: "4 < N" by (simp add: N_def)
  note T = affinity_diagonal_is_one [OF four, of env0 None z0]
  have "delta_affinity (fst ([result0] ! 0)) ! 4 ! 4 = 0 \<and>
        affinity (fst ([result0] ! 0)) ! 4 ! 4 = 1"
    using conjunct2 [OF T, rule_format, of "[(acts0, pdraws0)]" "[result0]" 0] r by simp
  then show ?thesis
    using conjunct1 [OF T] by (simp add: state0_def)
qed


subsection \<open>The end of the episode\<close>

text \<open>
  Claim C4. After \<open>reset\<close> all \<open>N\<close> agents are active. In an episode of 100 calls of \<open>step\<close>
  that return, the terminations and the truncations are false for every agent at each of the
  first 99 calls and the agents stay the full list; at call 100 both are true for every agent
  and the list of active agents becomes empty. Such an episode exists for every instance whose
  render mode \<open>render\<close> supports, with well-formed actions and draws.
\<close>

theorem episode_ends_after_100_steps:
  assumes "length xs = 100"
  shows "agents (fst (reset e seed z)) = possible_agents \<and> length possible_agents = N \<and>
         (\<forall>rs. run (fst (reset e seed z)) xs = Inr rs \<longrightarrow>
            length rs = 100 \<and>
            (\<forall>k<99. terminations (snd (rs ! k)) = const_dict possible_agents False \<and>
                     truncations (snd (rs ! k)) = const_dict possible_agents False \<and>
                     agents (fst (rs ! k)) = possible_agents) \<and>
            terminations (snd (rs ! 99)) = const_dict possible_agents True \<and>
            truncations (snd (rs ! 99)) = const_dict possible_agents True \<and>
            agents (fst (rs ! 99)) = []) \<and>
         (render_ok e \<and> list_all valid_input xs \<longrightarrow>
            (\<exists>rs. run (fst (reset e seed z)) xs = Inr rs))"
proof -
  let ?s = "fst (reset e seed z)"
  have ag: "agents ?s = possible_agents" by (rule reset_state)
  have n: "length possible_agents = N" by (simp add: N_def)
  have wf: "wf_env ?s" by (rule reset_wf_env)
  have t0: "t ?s = 0" by (rule reset_state)
  have part: "length rs = 100 \<and>
            (\<forall>k<99. terminations (snd (rs ! k)) = const_dict possible_agents False \<and>
                     truncations (snd (rs ! k)) = const_dict possible_agents False \<and>
                     agents (fst (rs ! k)) = possible_agents) \<and>
            terminations (snd (rs ! 99)) = const_dict possible_agents True \<and>
            truncations (snd (rs ! 99)) = const_dict possible_agents True \<and>
            agents (fst (rs ! 99)) = []"
    if r: "run ?s xs = Inr rs" for rs
  proof -
    have len: "length rs = 100" using run_length [OF r] assms by simp
    have before: "terminations (snd (rs ! k)) = const_dict possible_agents False \<and>
        truncations (snd (rs ! k)) = const_dict possible_agents False \<and>
        agents (fst (rs ! k)) = possible_agents" if k: "k < 99" for k :: nat
    proof -
      have "k < length rs" using len k by simp
      from run_episode [OF r wf this] show ?thesis using k t0 by simp
    qed
    have "99 < length rs" using len by simp
    from run_episode [OF r wf this]
    have "terminations (snd (rs ! 99)) = const_dict possible_agents True \<and>
      truncations (snd (rs ! 99)) = const_dict possible_agents True \<and>
      agents (fst (rs ! 99)) = []"
      using t0 by simp
    with len before show ?thesis by blast
  qed
  have total: "\<exists>rs. run ?s xs = Inr rs" if v: "render_ok e \<and> list_all valid_input xs"
  proof -
    have ro: "render_ok ?s" using v by (simp add: render_ok_def reset_state)
    show ?thesis
      using v assms t0 by (intro run_returns [OF wf ag ro]) simp_all
  qed
  show ?thesis using ag n part total by blast
qed

theorem episode_ends_after_100_steps_witness:
  "\<exists>rs. run state0 (replicate 100 (acts0, pdraws0)) = Inr rs \<and> length rs = 100 \<and>
     terminations (snd (rs ! 98)) = const_dict possible_agents False \<and>
     truncations (snd (rs ! 98)) = const_dict possible_agents False \<and>
     agents (fst (rs ! 98)) = possible_agents \<and>
     terminations (snd (rs ! 99)) = const_dict possible_agents True \<and>
     truncations (snd (rs ! 99)) = const_dict possible_agents True \<and>
     agents (fst (rs ! 99)) = []"
proof -
  let ?xs = "replicate 100 (acts0, pdraws0)"
  have l: "length ?xs = 100" by simp
  note T = episode_ends_after_100_steps [OF l, of env0 None z0]
  have v: "render_ok env0 \<and> list_all valid_input ?xs"
    using valid_input0 by (simp add: render_ok_def env0_def list_all_iff)
  from T v obtain rs where r: "run (fst (reset env0 None z0)) ?xs = Inr rs" by blast
  from T r have P: "length rs = 100 \<and>
            (\<forall>k<99. terminations (snd (rs ! k)) = const_dict possible_agents False \<and>
                     truncations (snd (rs ! k)) = const_dict possible_agents False \<and>
                     agents (fst (rs ! k)) = possible_agents) \<and>
            terminations (snd (rs ! 99)) = const_dict possible_agents True \<and>
            truncations (snd (rs ! 99)) = const_dict possible_agents True \<and>
            agents (fst (rs ! 99)) = []" by blast
  then have "terminations (snd (rs ! 98)) = const_dict possible_agents False \<and>
             truncations (snd (rs ! 98)) = const_dict possible_agents False \<and>
             agents (fst (rs ! 98)) = possible_agents" by simp
  with P r show ?thesis unfolding state0_def by blast
qed

subsection \<open>Observations\<close>

text \<open>
  Claim C6, as the specification states it: the own row of agent \<open>i\<close> is the first row of its
  view. After \<open>reset\<close> of the concrete instance, the first row of the view of agent 1 is the row
  of agent 6; the row of agent 1 is another one.
\<close>

theorem own_row_first_counterexample:
  "fst (snd (reset env0 None z0)) (possible_agents ! 1) = Some (concat (obs_matrix state0 1)) \<and>
   obs_matrix state0 1 ! 0 = [6 / 10, 6 / 10, 0, 0, 0, 0, 0, 0, 0, 0, 1] \<and>
   obs_matrix state0 0 ! 1 = [1 / 10, 1 / 10, 0, 0, 0, 1, 0, 0, 0, 0, 0] \<and>
   obs_matrix state0 1 ! 0 \<noteq> obs_matrix state0 0 ! 1"
proof -
  have o: "fst (snd (reset env0 None z0)) (possible_agents ! 1) = Some (concat (obs_matrix state0 1))"
    unfolding state0_def by (rule reset_observation_of) simp
  have r6: "obs_matrix state0 0 ! 6 = [6 / 10, 6 / 10, 0, 0, 0, 0, 0, 0, 0, 0, 1]"
    unfolding state0_def
    by (simp add: reset_obs_matrix_0(2) eye_7_rows z0_def std_gdp_def std_pgdp_def std_pl_def std_ppl_def)
  have r1: "obs_matrix state0 0 ! 1 = [1 / 10, 1 / 10, 0, 0, 0, 1, 0, 0, 0, 0, 0]"
    unfolding state0_def
    by (simp add: reset_obs_matrix_0(2) eye_7_rows z0_def std_gdp_def std_pgdp_def std_pl_def std_ppl_def)
  have l: "length (obs_matrix state0 0) = 7"
    unfolding state0_def by (rule reset_obs_matrix_0(1) [of 0]) simp
  have "obs_matrix state0 1 ! 0 = obs_matrix state0 0 ! ((0 + 7 - 1) mod 7)"
    using l by (rule obs_matrix_row) simp_all
  then have a: "obs_matrix state0 1 ! 0 = [6 / 10, 6 / 10, 0, 0, 0, 0, 0, 0, 0, 0, 1]"
    using r6 by simp
  show ?thesis using o a r1 by simp
qed

text \<open>
  Claim C6, amended. At \<open>reset\<close> and at every call of \<open>step\<close> that returns, the observation of
  agent \<open>i\<close> is the flattening of a matrix that is the matrix of agent 0 rolled by \<open>i\<close> rows
  (\<^verbatim>\<open>np.roll\<close> with shift \<open>i\<close>): row \<open>k\<close> of the view of agent \<open>i\<close> is row
  \<open>(k - i) mod N\<close> of the matrix of agent 0, whose row \<open>k\<close> carries the gdp, growth, price,
  inflation and affinity entries of agent \<open>k\<close>. So agent 0 sees its own row first.
\<close>

theorem observation_is_rotation:
  assumes "i < N" "k < N"
  shows "fst (snd (reset e seed z)) (possible_agents ! i) =
           Some (concat (obs_matrix (fst (reset e seed z)) i)) \<and>
         obs_matrix (fst (reset e seed z)) i = np_roll (obs_matrix (fst (reset e seed z)) 0) i \<and>
         obs_matrix (fst (reset e seed z)) i ! k =
           obs_matrix (fst (reset e seed z)) 0 ! ((k + N - i) mod N) \<and>
         obs_matrix (fst (reset e seed z)) 0 ! k =
           [gdp (fst (reset e seed z)) ! k, one_plus_gdp_growth_rate (fst (reset e seed z)) ! k,
            price_lvl (fst (reset e seed z)) ! k, one_plus_inf_rate (fst (reset e seed z)) ! k]
           @ affinity (fst (reset e seed z)) ! k \<and>
         (wf_env s \<and> step s actions draws = Inr (s', out) \<longrightarrow>
            observations out (possible_agents ! i) = Some (concat (obs_matrix s' i)) \<and>
            obs_matrix s' i = np_roll (obs_matrix s' 0) i \<and>
            obs_matrix s' i ! k = obs_matrix s' 0 ! ((k + N - i) mod N) \<and>
            obs_matrix s' 0 ! k =
              [gdp s' ! k, one_plus_gdp_growth_rate s' ! k, price_lvl s' ! k,
               one_plus_inf_rate s' ! k] @ affinity s' ! k)"
proof -
  have ik: "i < 7" "k < 7" using assms by (simp_all add: N_def)
  let ?s = "fst (reset e seed z)"
  have 1: "fst (snd (reset e seed z)) (possible_agents ! i) = Some (concat (obs_matrix ?s i))"
    using ik(1) by (rule reset_observation_of)
  have 2: "obs_matrix ?s i = np_roll (obs_matrix ?s 0) i" by (rule obs_matrix_roll)
  have 3: "obs_matrix ?s i ! k = obs_matrix ?s 0 ! ((k + N - i) mod N)"
    using obs_matrix_row [OF reset_obs_matrix_0(1) [of 0 e seed z] ik] by (simp add: N_def)
  have sq: "square 7 (affinity ?s)" by (simp add: reset_state square_eye)
  have 5: "obs_matrix ?s 0 ! k =
           [gdp ?s ! k, one_plus_gdp_growth_rate ?s ! k, price_lvl ?s ! k, one_plus_inf_rate ?s ! k]
           @ affinity ?s ! k"
    using reset_eco(3) reset_state(5) reset_eco(1) reset_state(6) reset_eco(2) sq ik(2)
    by (rule obs_matrix_0_row(2))
  have 4: "observations out (possible_agents ! i) = Some (concat (obs_matrix s' i)) \<and>
            obs_matrix s' i = np_roll (obs_matrix s' 0) i \<and>
            obs_matrix s' i ! k = obs_matrix s' 0 ! ((k + N - i) mod N) \<and>
            obs_matrix s' 0 ! k =
              [gdp s' ! k, one_plus_gdp_growth_rate s' ! k, price_lvl s' ! k,
               one_plus_inf_rate s' ! k] @ affinity s' ! k"
    if h: "wf_env s \<and> step s actions draws = Inr (s', out)"
  proof -
    have st: "step s actions draws = Inr (s', out)" and wf: "wf_env s" using h by simp_all
    note M = step_obs_matrix_0 [OF st wf ik(2)]
    have "obs_matrix s' i ! k = obs_matrix s' 0 ! ((k + N - i) mod N)"
      using obs_matrix_row [OF M(1) ik] by (simp add: N_def)
    then show ?thesis
      using step_observation_of [OF st wf ik(1)] obs_matrix_roll [of s' i] M(2) by simp
  qed
  show ?thesis using 1 2 3 4 5 by blast
qed

theorem observation_is_rotation_witness:
  "observations (snd result0) (possible_agents ! 2) = Some (concat (obs_matrix (fst result0) 2)) \<and>
   obs_matrix (fst result0) 2 = np_roll (obs_matrix (fst result0) 0) 2 \<and>
   obs_matrix (fst result0) 2 ! 0 = obs_matrix (fst result0) 0 ! 5 \<and>
   obs_matrix (fst result0) 2 ! 4 = obs_matrix (fst result0) 0 ! 2"
proof -
  have h: "wf_env state0 \<and> step state0 acts0 pdraws0 = Inr (fst result0, snd result0)"
    using state0_wf step0 by simp
  have n: "2 < N" "0 < N" "4 < N" by (simp_all add: N_def)
  have m: "(0 + N - 2) mod N = 5" "(4 + N - 2) mod N = 2" by (simp_all add: N_def)
  from observation_is_rotation [OF n(1) n(2), of env0 None z0 state0 acts0 pdraws0 "fst result0" "snd result0"] h
  have a: "observations (snd result0) (possible_agents ! 2) = Some (concat (obs_matrix (fst result0) 2))"
    "obs_matrix (fst result0) 2 = np_roll (obs_matrix (fst result0) 0) 2"
    "obs_matrix (fst result0) 2 ! 0 = obs_matrix (fst result0) 0 ! ((0 + N - 2) mod N)"
    by blast+
  from observation_is_rotation [OF n(1) n(3), of env0 None z0 state0 acts0 pdraws0 "fst result0" "snd result0"] h
  have b: "obs_matrix (fst result0) 2 ! 4 = obs_matrix (fst result0) 0 ! ((4 + N - 2) mod N)"
    by blast
  show ?thesis
    using a(1,2) a(3) [unfolded m] b [unfolded m] by blast
qed

subsection \<open>The accept probability\<close>

text \<open>
  Claim C7, evaluated on the source. The function that the source names \<^verbatim>\<open>sigmoid\<close> maps an
  accept preference of 0 to the probability 1/2 and a preference of 1 to \<open>1 / (1 + exp 1)\<close>,
  which is smaller, where the logistic sigmoid gives more than 1/2: with a uniform draw of 0.4
  the preference 0 accepts and the preference 1 rejects.
\<close>

theorem sigmoid_decreases:
  "sigmoid 0 = 1 / 2 \<and> sigmoid 1 = 1 / (1 + exp 1) \<and> sigmoid 1 < sigmoid 0 \<and>
   sigmoid 0 < 1 / (1 + exp (- 1)) \<and> sigmoid 1 \<noteq> 1 / (1 + exp (- 1)) \<and>
   less_bc [4 / 10] (map sigmoid [0]) = Inr [True] \<and>
   less_bc [4 / 10] (map sigmoid [1]) = Inr [False]"
proof -
  have e2: "2 \<le> exp (1::real)" using exp_ge_add_one_self [of "1::real"] by simp
  have p1: "0 < 1 + exp (1::real)" using e2 by linarith
  have "1 < 4 / 10 * (1 + exp (1::real))" using e2 by simp
  then have a: "1 / (1 + exp (1::real)) < 4 / 10"
    using p1 by (simp only: pos_divide_less_eq)
  have p2: "0 < 1 + exp (- 1 :: real)" using exp_gt_zero [of "- 1 :: real"] by linarith
  have "1 / 2 * (1 + exp (- 1 :: real)) < 1" by simp
  then have b: "1 / 2 < 1 / (1 + exp (- 1 :: real))"
    using p2 by (simp only: pos_less_divide_eq)
  have c: "\<not> 4 / 10 < 1 / (1 + exp (1::real))" using a by simp
  show ?thesis using a b c by (simp add: sigmoid_def less_bc_def)
qed

subsection \<open>Seeds\<close>

text \<open>
  Claim C9, as the specification states it: two calls of \<open>reset\<close> with one seed give the same
  observations. \<open>reset\<close> does not use its seed; with the seed 42 both times and two different
  sets of draws from the global generator, the observations of agent 0 differ.
\<close>

theorem same_seed_counterexample:
  "fst (snd (reset env0 (Some 42) z0)) (possible_agents ! 0) \<noteq>
   fst (snd (reset env0 (Some 42) z1)) (possible_agents ! 0)"
proof
  assume e: "fst (snd (reset env0 (Some 42) z0)) (possible_agents ! 0) =
   fst (snd (reset env0 (Some 42) z1)) (possible_agents ! 0)"
  obtain v where v: "fst (snd (reset env0 (Some 42) z0)) (possible_agents ! 0) = Some v"
    using reset_observation_of [of 0 env0 "Some 42" z0] by simp
  have "v ! 0 = std_gdp * z_gdp z0 0" using v by (rule reset_first_entry)
  moreover have "v ! 0 = std_gdp * z_gdp z1 0" using v e reset_first_entry [of env0 "Some 42" z1 v] by simp
  ultimately show False by (simp add: z0_def z1_def std_gdp_def)
qed

text \<open>
  Claim C9, amended. The simulation is deterministic given the values drawn from the global
  generator, and the seed has no effect: two instances with the same render mode, reset with
  any two seeds and the same draws, return the same observations and infos, and driven by the
  same actions and draws they produce the same results (outputs, errors and states) at every
  call of \<open>step\<close>.
\<close>

theorem deterministic_given_draws:
  assumes "render_mode e1 = render_mode e2"
  shows "snd (reset e1 seed1 z) = snd (reset e2 seed2 z) \<and>
         run (fst (reset e1 seed1 z)) xs = run (fst (reset e2 seed2 z)) xs"
  using reset_outputs [OF assms] run_reads [OF reset_reads(1-7) [OF assms]]
  by blast

theorem deterministic_given_draws_witness:
  "snd (reset env0 (Some 1) z0) = snd (reset (env0\<lparr>eco_reward := [1]\<rparr>) (Some 2) z0) \<and>
   run (fst (reset env0 (Some 1) z0)) [(acts0, pdraws0)] =
   run (fst (reset (env0\<lparr>eco_reward := [1]\<rparr>) (Some 2) z0)) [(acts0, pdraws0)]"
proof -
  have "render_mode env0 = render_mode (env0\<lparr>eco_reward := [1]\<rparr>)" by simp
  then show ?thesis by (rule deterministic_given_draws)
qed


end
